theory Spec2Isabelle
  imports Complex_Main "HOL-Library.Signed_Division"
begin

section \<open>Values of the host language\<close>

subsection \<open>Native numbers\<close>

text \<open>
  A native number of the host language is an IEEE 754 binary64 value: a finite value
  (a rational), one of the two infinities, or NaN.  The two zeros are identified; no
  computation of \<open>convert.ts\<close> divides by a negative zero.
\<close>

datatype jsnum = Fin rat | PInf | NInf | NaN

function bit_length :: "int \<Rightarrow> int" where
  "bit_length n = (if n \<le> 0 then 0 else 1 + bit_length (n div 2))"
  by pat_completeness auto
termination
  by (relation "measure nat") auto

definition ilog2 :: "rat \<Rightarrow> int" where
  \<comment> \<open>\<open>\<lfloor>log\<^sub>2 x\<rfloor>\<close> for \<open>x > 0\<close>, from the bit lengths of numerator and denominator\<close>
  "ilog2 x =
     (let (a, b) = quotient_of x;
          d = bit_length a - bit_length b
      in if 2 powi d \<le> x then d else d - 1)"

definition round_half_even :: "rat \<Rightarrow> int" where
  "round_half_even m =
     (let f = \<lfloor>m\<rfloor>; r = m - of_int f
      in if r < 1 / 2 then f
         else if 1 / 2 < r then f + 1
         else if even f then f else f + 1)"

definition round_double :: "rat \<Rightarrow> jsnum" where
  \<comment> \<open>round to nearest, ties to even, 53 significant bits, exponents from -1022 to 1023\<close>
  "round_double x =
     (if x = 0 then Fin 0
      else
        let e = max (ilog2 \<bar>x\<bar>) (- 1022);
            u = 2 powi (e - 52);
            r = of_int (round_half_even (x / u)) * u
        in if 1023 < ilog2 \<bar>r\<bar> then (if 0 < x then PInf else NInf) else Fin r)"

fun jsub :: "jsnum \<Rightarrow> jsnum \<Rightarrow> jsnum" where
  "jsub (Fin a) (Fin b) = round_double (a - b)"
| "jsub NaN _ = NaN"
| "jsub _ NaN = NaN"
| "jsub PInf PInf = NaN"
| "jsub NInf NInf = NaN"
| "jsub PInf _ = PInf"
| "jsub NInf _ = NInf"
| "jsub (Fin a) PInf = NInf"
| "jsub (Fin a) NInf = PInf"

fun jneg :: "jsnum \<Rightarrow> jsnum" where
  "jneg (Fin a) = Fin (- a)"
| "jneg PInf = NInf"
| "jneg NInf = PInf"
| "jneg NaN = NaN"

fun jdiv :: "jsnum \<Rightarrow> jsnum \<Rightarrow> jsnum" where
  "jdiv (Fin a) (Fin b) =
     (if b = 0 then (if a = 0 then NaN else if 0 < a then PInf else NInf)
      else round_double (a / b))"
| "jdiv NaN _ = NaN"
| "jdiv _ NaN = NaN"
| "jdiv (Fin a) _ = Fin 0"
| "jdiv PInf (Fin b) = (if b < 0 then NInf else PInf)"
| "jdiv NInf (Fin b) = (if b < 0 then PInf else NInf)"
| "jdiv _ _ = NaN"

fun jmul :: "jsnum \<Rightarrow> jsnum \<Rightarrow> jsnum" where
  "jmul (Fin a) (Fin b) = round_double (a * b)"
| "jmul NaN _ = NaN"
| "jmul _ NaN = NaN"
| "jmul (Fin a) y = (if a = 0 then NaN else if 0 < a then y else jneg y)"
| "jmul x (Fin b) = (if b = 0 then NaN else if 0 < b then x else jneg x)"
| "jmul PInf y = y"
| "jmul NInf y = jneg y"

subsection \<open>Arbitrary-precision integers (bn.js)\<close>

text \<open>
  \<open>BN\<close> belongs to the library \<open>bn.js\<close>, a dependency of the module.  A \<open>BN\<close> holds an
  integer of any size.  \<open>toNumber\<close> returns the value as a native number when it fits in
  53 bits and throws otherwise (\<open>Number can only safely store up to 53 bits\<close>);
  \<open>new BN(n)\<close> of such a number holds the same integer; \<open>div\<close> is the integer quotient
  rounded towards zero.
\<close>

datatype error = NumberTooLarge | QueryFailed string

definition BN_toNumber :: "int \<Rightarrow> error + int" where
  "BN_toNumber v = (if \<bar>v\<bar> < 2 ^ 53 then Inr v else Inl NumberTooLarge)"

definition BN_of_number :: "int \<Rightarrow> int" where
  "BN_of_number n = n"

definition BN_div :: "int \<Rightarrow> int \<Rightarrow> int" where
  "BN_div a b = a sdiv b"

subsection \<open>Prices\<close>

text \<open>
  \<open>getConvertPriceInfo\<close> is declared to produce native numbers, but its callback is
  typed \<open>any\<close> and returns either the literal \<open>0\<close> or the \<open>BN\<close> that \<open>div\<close> built.
  In arithmetic a \<open>BN\<close> is coerced through its decimal string to the nearest native
  number; an absent element (\<open>undefined\<close>, or the placeholder of \<open>combineLatest\<close>) is
  coerced to NaN.  The strict comparison \<open>x !== 0\<close> is false only for the native
  number zero.
\<close>

datatype price = PNum jsnum | PBN int

fun toNumber :: "price option \<Rightarrow> jsnum" where
  "toNumber (Some (PNum x)) = x"
| "toNumber (Some (PBN v)) = round_double (of_int v)"
| "toNumber None = NaN"

fun strictNotZero :: "price option \<Rightarrow> bool" where
  "strictNotZero (Some (PNum x)) = (x \<noteq> Fin 0)"
| "strictNotZero (Some (PBN v)) = True"
| "strictNotZero None = True"

section \<open>Observables\<close>

text \<open>
  An observable is modelled by the notifications it hands to a subscriber, in order; an
  operator stops at the first error or completion it passes on.  Where several
  observables are combined, the order in which they deliver is an input of the model: a
  list of source numbers, each entry letting that source deliver its next notification
  (an entry for a source with nothing left to deliver is skipped).  A property stated
  for every such list holds however the deliveries interleave.

  The operators \<open>map\<close>, \<open>combineLatest\<close> and \<open>mergeMap\<close> belong to the library \<open>rxjs\<close>
  (version 6), a dependency of the module; they are written here as the library's
  subscribers handle a notification, with the names of their fields.
\<close>

datatype 'a notif = Next 'a | Error error | Complete

fun map_rx :: "('a \<Rightarrow> error + 'b) \<Rightarrow> 'a notif list \<Rightarrow> 'b notif list" where
  \<comment> \<open>the operator \<open>map\<close>: a callback that throws turns into an error notification\<close>
  "map_rx project [] = []"
| "map_rx project (Next x # ns) =
     (case project x of
        Inl err \<Rightarrow> [Error err]
      | Inr result \<Rightarrow> Next result # map_rx project ns)"
| "map_rx project (Error err # ns) = [Error err]"
| "map_rx project (Complete # ns) = [Complete]"

record 'a combine_state =
  cl_values :: "'a option list"
  cl_active :: int
  cl_toRespond :: int
  cl_observables :: "'a notif list list"

fun cl_run :: "nat list \<Rightarrow> 'a combine_state \<Rightarrow> 'a option list notif list" where
  "cl_run [] st = []"
| "cl_run (i # sch) st =
     (if length (cl_observables st) \<le> i then cl_run sch st
      else case cl_observables st ! i of
        [] \<Rightarrow> cl_run sch st
      | Next innerValue # rest \<Rightarrow>
          (let oldVal = cl_values st ! i;
               toRespond =
                 (if cl_toRespond st = 0 then 0
                  else if oldVal = None then cl_toRespond st - 1
                  else cl_toRespond st);
               values = (cl_values st)[i := Some innerValue];
               st' = st\<lparr>cl_values := values, cl_toRespond := toRespond,
                        cl_observables := (cl_observables st)[i := rest]\<rparr>
           in if toRespond = 0 then Next values # cl_run sch st' else cl_run sch st')
      | Error err # rest \<Rightarrow> [Error err]
      | Complete # rest \<Rightarrow>
          (if cl_active st - 1 = 0 then [Complete]
           else cl_run sch (st\<lparr>cl_active := cl_active st - 1,
                                 cl_observables := (cl_observables st)[i := []]\<rparr>)))"

definition combineLatest :: "nat list \<Rightarrow> 'a notif list list \<Rightarrow> 'a option list notif list" where
  \<comment> \<open>\<open>combineLatest\<close> of an array; a slot holds \<open>None\<close> until its source has delivered\<close>
  "combineLatest sch observables =
     (let len = length observables
      in if len = 0 then [Complete]
         else cl_run sch \<lparr>cl_values = replicate len None, cl_active = int len,
                           cl_toRespond = int len, cl_observables = observables\<rparr>)"

record ('a, 'b) merge_state =
  mm_index :: nat
  mm_active :: int
  mm_hasCompleted :: bool
  mm_source :: "'a notif list"
  mm_inner :: "'b notif list list"

fun mm_run :: "nat list \<Rightarrow> ('a \<Rightarrow> nat \<Rightarrow> 'b notif list) \<Rightarrow> ('a, 'b) merge_state \<Rightarrow> 'b notif list" where
  "mm_run [] project st = []"
| "mm_run (0 # sch) project st =
     (case mm_source st of
        [] \<Rightarrow> mm_run sch project st
      | Next x # rest \<Rightarrow>
          mm_run sch project
            (st\<lparr>mm_index := mm_index st + 1, mm_active := mm_active st + 1,
                 mm_source := rest,
                 mm_inner := mm_inner st @ [project x (mm_index st)]\<rparr>)
      | Error err # rest \<Rightarrow> [Error err]
      | Complete # rest \<Rightarrow>
          (if mm_active st = 0 then [Complete]
           else mm_run sch project (st\<lparr>mm_hasCompleted := True, mm_source := []\<rparr>)))"
| "mm_run (Suc k # sch) project st =
     (if length (mm_inner st) \<le> k then mm_run sch project st
      else case mm_inner st ! k of
        [] \<Rightarrow> mm_run sch project st
      | Next innerValue # rest \<Rightarrow>
          Next innerValue # mm_run sch project (st\<lparr>mm_inner := (mm_inner st)[k := rest]\<rparr>)
      | Error err # rest \<Rightarrow> [Error err]
      | Complete # rest \<Rightarrow>
          (if mm_active st - 1 = 0 \<and> mm_hasCompleted st then [Complete]
           else mm_run sch project
                  (st\<lparr>mm_active := mm_active st - 1,
                       mm_inner := (mm_inner st)[k := []]\<rparr>)))"

definition mergeMap :: "nat list \<Rightarrow> ('a \<Rightarrow> nat \<Rightarrow> 'b notif list) \<Rightarrow> 'a notif list \<Rightarrow> 'b notif list" where
  \<comment> \<open>the operator \<open>mergeMap\<close>, unbounded concurrency; source 0 is the outer observable,
      source \<open>k + 1\<close> the inner observable made from the \<open>k\<close>-th outer value\<close>
  "mergeMap sch project source =
     mm_run sch project
       \<lparr>mm_index = 0, mm_active = 0, mm_hasCompleted = False,
        mm_source = source, mm_inner = []\<rparr>"

section \<open>The module \<open>convert.ts\<close>\<close>

subsection \<open>What the module imports\<close>

type_synonym vToken = string
type_synonym BlockHash = string

text \<open>The record a pool query delivers, and the chain client with its two query forms.\<close>

record poolRes =
  res_current_reward :: int
  res_pending_reward :: int
  res_token_pool :: int
  res_vtoken_pool :: int

record ApiInterfaceRx =
  query_convert_pool :: "vToken \<Rightarrow> poolRes notif list"
  query_convert_pool_at :: "BlockHash \<Rightarrow> vToken \<Rightarrow> poolRes notif list"

record convertPool =
  current_reward :: int
  pending_reward :: int
  token_pool :: int
  vtoken_pool :: int

text \<open>
  \<open>bifrostVtokenList\<close> (from \<open>../type\<close>) and \<open>getDesignatedBlockHash\<close> (from \<open>../util\<close>)
  are not part of \<open>convert.ts\<close>; they are parameters, together with the orders in which
  the combined observables deliver.
\<close>

record env =
  bifrostVtokenList :: "vToken list"
  getDesignatedBlockHash :: "string \<Rightarrow> ApiInterfaceRx \<Rightarrow> BlockHash notif list"
  batch_order :: "nat list"
  rate_merge_order :: "vToken \<Rightarrow> nat list"
  rate_combine_order :: "vToken \<Rightarrow> nat list"
  hash_merge_order :: "nat list"
  hash_combine_order :: "nat \<Rightarrow> nat list"

text \<open>
  Modelled from the spec: \<open>memo\<close> is imported from \<open>@polkadot/api-derive/util\<close> and is
  not part of \<open>convert.ts\<close>.  The wrapped function has the signature of \<open>fn\<close> and returns
  the stream that \<open>fn\<close> made for these arguments, so a subscriber receives the
  notifications of that stream.  The cache is modelled by \<open>memo_call\<close> below.
\<close>

definition memo :: "string \<Rightarrow> 'f \<Rightarrow> 'f" where
  "memo instanceId fn = fn"

subsection \<open>The derive functions\<close>

definition getPoolInfo ::
  "string \<Rightarrow> ApiInterfaceRx \<Rightarrow> vToken \<Rightarrow> BlockHash option \<Rightarrow> convertPool notif list" where
  \<comment> \<open>\<open>convert.ts\<close>, lines 29 to 48\<close>
  "getPoolInfo instanceId api =
     memo instanceId (\<lambda>tokenSymbol preBlockHash.
       let result =
             (case preBlockHash of
                None \<Rightarrow> query_convert_pool api tokenSymbol
              | Some h \<Rightarrow> query_convert_pool_at api h tokenSymbol)
       in map_rx (\<lambda>res. Inr \<lparr>current_reward = BN_of_number (res_current_reward res),
                               pending_reward = BN_of_number (res_pending_reward res),
                               token_pool = BN_of_number (res_token_pool res),
                               vtoken_pool = BN_of_number (res_vtoken_pool res)\<rparr>) result)"

definition getAllVtokenConvertInfo ::
  "env \<Rightarrow> string \<Rightarrow> ApiInterfaceRx \<Rightarrow> vToken list option
     \<Rightarrow> convertPool option list notif list" where
  \<comment> \<open>\<open>convert.ts\<close>, lines 56 to 70\<close>
  "getAllVtokenConvertInfo env instanceId api =
     memo instanceId (\<lambda>vTokenArray.
       let vTokenList =
             (case vTokenArray of None \<Rightarrow> bifrostVtokenList env | Some a \<Rightarrow> a);
           getPoolInfoQuery = getPoolInfo instanceId api
       in combineLatest (batch_order env) (map (\<lambda>vtk. getPoolInfoQuery vtk None) vTokenList))"

definition convertPrice :: "convertPool \<Rightarrow> (error + price) \<times> nat" where
  \<comment> \<open>the callback of \<open>getConvertPriceInfo\<close> (lines 83 to 96): what it returns or
      throws, and how many times it called \<open>div\<close>\<close>
  "convertPrice result =
     (case BN_toNumber (token_pool result) of
        Inl err \<Rightarrow> (Inl err, 0)
      | Inr tn \<Rightarrow>
          let tokenPool = BN_of_number tn
          in case BN_toNumber (vtoken_pool result) of
               Inl err \<Rightarrow> (Inl err, 0)
             | Inr vn \<Rightarrow>
                 if vn \<noteq> 0 then
                   (case BN_toNumber (vtoken_pool result) of
                      Inl err \<Rightarrow> (Inl err, 0)
                    | Inr vn' \<Rightarrow>
                        let vtokenPool = BN_of_number vn'
                        in (Inr (PBN (BN_div tokenPool vtokenPool)), 1))
                 else (Inr (PNum (Fin 0)), 0))"

definition getConvertPriceInfo ::
  "string \<Rightarrow> ApiInterfaceRx \<Rightarrow> vToken \<Rightarrow> BlockHash option \<Rightarrow> price notif list" where
  \<comment> \<open>\<open>convert.ts\<close>, lines 78 to 99\<close>
  "getConvertPriceInfo instanceId api =
     memo instanceId (\<lambda>tokenSymbol preBlockHash.
       let convertPoolQuery = getPoolInfo instanceId api
       in map_rx (\<lambda>result. fst (convertPrice result)) (convertPoolQuery tokenSymbol preBlockHash))"

definition getAllConvertPriceInfo ::
  "env \<Rightarrow> string \<Rightarrow> ApiInterfaceRx \<Rightarrow> vToken list option
     \<Rightarrow> price option list notif list" where
  \<comment> \<open>\<open>convert.ts\<close>, lines 107 to 121\<close>
  "getAllConvertPriceInfo env instanceId api =
     memo instanceId (\<lambda>vTokenArray.
       let vTokenList =
             (case vTokenArray of None \<Rightarrow> bifrostVtokenList env | Some a \<Rightarrow> a);
           getConvertPriceInfoQuery = getConvertPriceInfo instanceId api
       in combineLatest (batch_order env)
            (map (\<lambda>vtk. getConvertPriceInfoQuery vtk None) vTokenList))"

definition element :: "'a option list \<Rightarrow> nat \<Rightarrow> 'a option" where
  \<comment> \<open>array destructuring: an index past the end gives \<open>undefined\<close>\<close>
  "element xs i = (if i < length xs then xs ! i else None)"

definition annualizedRate :: "price option list \<Rightarrow> jsnum" where
  \<comment> \<open>the callback of \<open>getAnnualizedRate\<close> (lines 150 to 160)\<close>
  "annualizedRate pair =
     (let currentPrice = element pair 0;
          historicalPrice = element pair 1
      in if strictNotZero historicalPrice then
           jmul (jdiv (jdiv (jsub (toNumber currentPrice) (toNumber historicalPrice))
                            (toNumber historicalPrice))
                      (Fin 7))
                (Fin 365)
         else Fin 0)"

definition pricePairs ::
  "env \<Rightarrow> string \<Rightarrow> ApiInterfaceRx \<Rightarrow> vToken \<Rightarrow> price option list notif list" where
  \<comment> \<open>the first part of \<open>getAnnualizedRate\<close> (lines 131 to 149): the current price
      combined with the price at the designated block\<close>
  "pricePairs env instanceId api tokenSymbol =
     (let convertPriceQuery = getConvertPriceInfo instanceId api;
          currentPrice = convertPriceQuery tokenSymbol None;
          preBlockHashQuery = getDesignatedBlockHash env instanceId api;
          historicalPrice =
            mergeMap (rate_merge_order env tokenSymbol)
              (\<lambda>preHash _. convertPriceQuery tokenSymbol (Some preHash)) preBlockHashQuery
      in combineLatest (rate_combine_order env tokenSymbol) [currentPrice, historicalPrice])"

definition getAnnualizedRate ::
  "env \<Rightarrow> string \<Rightarrow> ApiInterfaceRx \<Rightarrow> vToken \<Rightarrow> jsnum notif list" where
  \<comment> \<open>\<open>convert.ts\<close>, lines 129 to 165\<close>
  "getAnnualizedRate env instanceId api =
     memo instanceId (\<lambda>tokenSymbol.
       map_rx (\<lambda>pair. Inr (annualizedRate pair)) (pricePairs env instanceId api tokenSymbol))"

definition getAllAnnualizedRate ::
  "env \<Rightarrow> string \<Rightarrow> ApiInterfaceRx \<Rightarrow> vToken list option
     \<Rightarrow> jsnum option list notif list" where
  \<comment> \<open>\<open>convert.ts\<close>, lines 173 to 187\<close>
  "getAllAnnualizedRate env instanceId api =
     memo instanceId (\<lambda>vTokenArray.
       let vTokenList =
             (case vTokenArray of None \<Rightarrow> bifrostVtokenList env | Some a \<Rightarrow> a);
           getAnnualizedRateQuery = getAnnualizedRate env instanceId api
       in combineLatest (batch_order env) (map (\<lambda>vtk. getAnnualizedRateQuery vtk) vTokenList))"

definition getBatchConvertPrice ::
  "env \<Rightarrow> string \<Rightarrow> ApiInterfaceRx \<Rightarrow> vToken \<Rightarrow> BlockHash list notif list
     \<Rightarrow> price option list notif list" where
  \<comment> \<open>\<open>convert.ts\<close>, lines 196 to 207\<close>
  "getBatchConvertPrice env instanceId api =
     memo instanceId (\<lambda>tokenSymbol blockHashArray.
       let getConvertPriceInfoQuery = getConvertPriceInfo instanceId api
       in mergeMap (hash_merge_order env)
            (\<lambda>blockHashList k.
               combineLatest (hash_combine_order env k)
                 (map (\<lambda>blockHash. getConvertPriceInfoQuery tokenSymbol (Some blockHash))
                    blockHashList))
            blockHashArray)"

subsection \<open>The cache of \<open>memo\<close>\<close>

text \<open>
  A key is the instance identifier, the identity of the wrapped function and the
  argument tuple.  The table holds the live stream of each key; a stream is named by the
  number of the invocation that made it, and every invocation of a wrapped body is
  logged.
\<close>

type_synonym ('f, 'a) memo_key = "string \<times> 'f \<times> 'a"

record ('f, 'a) memo_table =
  live :: "(('f, 'a) memo_key \<times> nat) list"
  invocations :: "('f, 'a) memo_key list"

datatype ('f, 'a) memo_event = Call string 'f 'a | Unsubscribed string 'f 'a

text \<open>
  Modelled from the spec: \<open>memo\<close> is not part of \<open>convert.ts\<close>.  Constructing the wrapped
  function leaves the table as it is: \<open>fn\<close> is not invoked.
\<close>

definition memo_wrap :: "string \<Rightarrow> 'f \<Rightarrow> ('f, 'a) memo_table \<Rightarrow> ('f, 'a) memo_table" where
  "memo_wrap instanceId fn t = t"

text \<open>
  Modelled from the spec: \<open>memo\<close> is not part of \<open>convert.ts\<close>.  A call of the wrapped
  function returns the live stream of its key if there is one, and otherwise invokes
  \<open>fn\<close>, stores the new stream under the key and returns it.
\<close>

definition memo_call ::
  "string \<Rightarrow> 'f \<Rightarrow> 'a \<Rightarrow> ('f, 'a) memo_table \<Rightarrow> nat \<times> ('f, 'a) memo_table" where
  "memo_call instanceId fn args t =
     (let key = (instanceId, fn, args)
      in case map_of (live t) key of
           Some stream \<Rightarrow> (stream, t)
         | None \<Rightarrow>
             let stream = length (invocations t)
             in (stream, t\<lparr>live := (key, stream) # live t,
                           invocations := invocations t @ [key]\<rparr>))"

text \<open>
  Modelled from the spec: \<open>memo\<close> is not part of \<open>convert.ts\<close>.  When the last subscriber
  of a stream has left, the stream is no longer live.
\<close>

definition memo_unsubscribed ::
  "string \<Rightarrow> 'f \<Rightarrow> 'a \<Rightarrow> ('f, 'a) memo_table \<Rightarrow> ('f, 'a) memo_table" where
  "memo_unsubscribed instanceId fn args t =
     t\<lparr>live := filter (\<lambda>entry. fst entry \<noteq> (instanceId, fn, args)) (live t)\<rparr>"

fun memo_run :: "('f, 'a) memo_event list \<Rightarrow> ('f, 'a) memo_table \<Rightarrow> ('f, 'a) memo_table" where
  "memo_run [] t = t"
| "memo_run (Call instanceId fn args # evs) t = memo_run evs (snd (memo_call instanceId fn args t))"
| "memo_run (Unsubscribed instanceId fn args # evs) t =
     memo_run evs (memo_unsubscribed instanceId fn args t)"

section \<open>Properties\<close>

subsection \<open>Notions used in the statements and proofs\<close>

fun isZero :: "price \<Rightarrow> bool" where
  "isZero (PNum x) = (x = Fin 0)"
| "isZero (PBN v) = (v = 0)"

fun closed :: "'a notif list \<Rightarrow> bool" where
  \<comment> \<open>only the last notification may be an error or a completion\<close>
  "closed [] = True"
| "closed [n] = True"
| "closed (Next x # ns) = closed ns"
| "closed (n # ns) = False"

definition nones :: "'a option list \<Rightarrow> nat" where
  "nones xs = length (filter (\<lambda>x. x = None) xs)"

definition cl_inv :: "nat \<Rightarrow> (nat \<Rightarrow> 'a notif set) \<Rightarrow> 'a combine_state \<Rightarrow> bool" where
  \<comment> \<open>the invariant of \<open>combineLatest\<close>: \<open>toRespond\<close> counts the empty slots, and slot \<open>i\<close>
      holds a value of source \<open>i\<close>\<close>
  "cl_inv n S st \<longleftrightarrow>
     length (cl_values st) = n \<and> length (cl_observables st) = n \<and>
     cl_toRespond st = int (nones (cl_values st)) \<and>
     (\<forall>i<n. \<forall>v. cl_values st ! i = Some v \<longrightarrow> Next v \<in> S i) \<and>
     (\<forall>i<n. set (cl_observables st ! i) \<subseteq> S i)"

definition pending :: "'a list list \<Rightarrow> nat" where
  \<comment> \<open>how many sources still have something to deliver\<close>
  "pending obs = length (filter (\<lambda>ob. ob \<noteq> []) obs)"

definition mm_inv :: "('a \<Rightarrow> nat \<Rightarrow> 'b notif list) \<Rightarrow> ('a, 'b) merge_state \<Rightarrow> bool" where
  \<comment> \<open>the invariant of \<open>mergeMap\<close> while nothing fails: \<open>active\<close> covers the inner
      observables still delivering, and \<open>index\<close> counts the inner observables made\<close>
  "mm_inv project st \<longleftrightarrow>
     int (pending (mm_inner st)) \<le> mm_active st \<and>
     mm_index st = length (mm_inner st) \<and>
     (mm_hasCompleted st \<longrightarrow> mm_source st = []) \<and>
     (\<forall>e. Error e \<notin> set (mm_source st)) \<and>
     (\<forall>inner\<in>set (mm_inner st). \<forall>e. Error e \<notin> set inner) \<and>
     (\<forall>x j e. Next x \<in> set (mm_source st) \<longrightarrow> Error e \<notin> set (project x j))"

subsection \<open>Example inputs\<close>

definition poolOf :: "int \<times> int \<Rightarrow> poolRes" where
  "poolOf tv = \<lparr>res_current_reward = 0, res_pending_reward = 0,
                res_token_pool = fst tv, res_vtoken_pool = snd tv\<rparr>"

definition exampleApi ::
  "(vToken \<Rightarrow> int \<times> int) \<Rightarrow> (BlockHash \<Rightarrow> vToken \<Rightarrow> int \<times> int) \<Rightarrow> ApiInterfaceRx" where
  \<comment> \<open>a chain whose live query has delivered one pool record, and whose query at a block
      delivers one record and completes\<close>
  "exampleApi now past =
     \<lparr>query_convert_pool = (\<lambda>tokenSymbol. [Next (poolOf (now tokenSymbol))]),
      query_convert_pool_at = (\<lambda>h tokenSymbol. [Next (poolOf (past h tokenSymbol)), Complete])\<rparr>"

definition exampleEnv :: "nat list \<Rightarrow> nat list \<Rightarrow> env" where
  \<comment> \<open>one designated block \<open>h0\<close>; every \<open>mergeMap\<close> delivers in the first order, every
      \<open>combineLatest\<close> in the second\<close>
  "exampleEnv merge_order combine_order =
     \<lparr>bifrostVtokenList = [''vDOT'', ''vKSM'', ''vEOS''],
      getDesignatedBlockHash = (\<lambda>instanceId api. [Next ''h0'']),
      batch_order = combine_order,
      rate_merge_order = (\<lambda>tokenSymbol. merge_order),
      rate_combine_order = (\<lambda>tokenSymbol. combine_order),
      hash_merge_order = merge_order,
      hash_combine_order = (\<lambda>k. combine_order)\<rparr>"

subsection \<open>Whole numbers as native numbers\<close>

text \<open>
  An integer below \<open>2\<^sup>5\<^sup>3\<close> in magnitude is a native number: rounding leaves it as it
  is.  So the coercion of such a \<open>BN\<close> is exact, and where the divisor divides the
  dividend the native quotient is the integer quotient.
\<close>

lemma bit_length_le: "n < 2 ^ m \<Longrightarrow> bit_length n \<le> int m"
proof (induction m arbitrary: n)
  case 0
  then show ?case by (subst bit_length.simps) simp
next
  case (Suc m)
  show ?case
  proof (cases "n \<le> 0")
    case True
    then show ?thesis by (subst bit_length.simps) simp
  next
    case False
    have "n div 2 < 2 ^ m"
      using Suc.prems by simp
    then have "bit_length (n div 2) \<le> int m"
      by (rule Suc.IH)
    then show ?thesis
      using False by (subst bit_length.simps) simp
  qed
qed

lemma bit_length_one: "bit_length 1 = 1"
  by (subst bit_length.simps, subst bit_length.simps) simp

lemma ilog2_of_int_le:
  assumes "k < 2 ^ 53"
  shows "ilog2 (of_int k) \<le> 52"
proof -
  have "quotient_of (of_int k) = (k, 1)"
    by (metis Rat.of_int_def quotient_of_int)
  moreover have "bit_length k \<le> 53"
    using bit_length_le [of k 53] assms by simp
  ultimately show ?thesis
    by (simp add: ilog2_def Let_def bit_length_one)
qed

lemma round_half_even_of_int: "round_half_even (of_int n) = n"
  by (simp add: round_half_even_def)

lemma round_double_of_int:
  assumes "\<bar>k\<bar> < 2 ^ 53"
  shows "round_double (of_int k) = Fin (of_int k)"
proof (cases "k = 0")
  case True
  then show ?thesis by (simp add: round_double_def)
next
  case False
  let ?x = "of_int k :: rat"
  have abs: "\<bar>?x\<bar> = of_int \<bar>k\<bar>" by simp
  have le: "ilog2 \<bar>?x\<bar> \<le> 52"
    unfolding abs using assms by (rule ilog2_of_int_le)
  define e where "e = max (ilog2 \<bar>?x\<bar>) (- 1022)"
  define n where "n = nat (52 - e)"
  have e: "e - 52 = - int n"
    using le by (simp add: e_def n_def)
  have u: "(2 :: rat) powi (e - 52) = inverse (2 ^ n)"
    unfolding e by (simp add: power_int_minus)
  have "?x / (2 powi (e - 52)) = of_int (k * 2 ^ n)"
    unfolding u by (simp add: field_simps)
  then have "round_half_even (?x / (2 powi (e - 52))) = k * 2 ^ n"
    by (simp only: round_half_even_of_int)
  then have r: "of_int (round_half_even (?x / (2 powi (e - 52)))) * (2 powi (e - 52)) = ?x"
    unfolding u by simp
  have "\<not> 1023 < ilog2 \<bar>?x\<bar>"
    using le by simp
  then show ?thesis
    using False r by (simp add: round_double_def Let_def e_def [symmetric])
qed

lemma sdiv_exact: "(l :: int) dvd k \<Longrightarrow> k sdiv l = k div l"
  by (simp add: signed_divide_int_eq_divide_int)

lemma native_quotient_exact:
  assumes "vp dvd tp" and "vp \<noteq> 0" and "\<bar>tp\<bar> < 2 ^ 53"
  shows "toNumber (Some (PBN (tp sdiv vp))) = jdiv (Fin (of_int tp)) (Fin (of_int vp))"
proof -
  obtain q where q: "tp = vp * q"
    using assms(1) by (auto simp: dvd_def)
  have "1 \<le> \<bar>vp\<bar>"
    using assms(2) by arith
  then have "\<bar>q\<bar> * 1 \<le> \<bar>q\<bar> * \<bar>vp\<bar>"
    by (intro mult_left_mono) simp_all
  then have "\<bar>q\<bar> \<le> \<bar>tp\<bar>"
    using q by (simp add: abs_mult mult.commute)
  then have small: "\<bar>q\<bar> < 2 ^ 53"
    using assms(3) by simp
  have "tp sdiv vp = q"
    using q assms(2) by (simp add: sdiv_exact)
  moreover have "(of_int tp :: rat) / of_int vp = of_int q"
    using q assms(2) by simp
  ultimately show ?thesis
    using assms(2) by (simp add: round_double_of_int [OF small])
qed

subsection \<open>The operator \<open>map\<close>\<close>

lemma map_rx_prefix_length:
  "\<forall>q\<in>set ps. \<exists>y. f q = Inr y \<Longrightarrow>
   length (map_rx f (map Next ps @ ns)) = length ps + length (map_rx f ns)"
  by (induction ps) auto

lemma map_rx_prefix_nth:
  "\<forall>q\<in>set ps. \<exists>y. f q = Inr y \<Longrightarrow>
   map_rx f (map Next ps @ ns) ! (length ps + j) = map_rx f ns ! j"
  by (induction ps) auto

lemma map_rx_closed: "closed ns \<Longrightarrow> map_rx (\<lambda>x. Inr (g x)) ns = map (map_notif g) ns"
proof (induction ns rule: closed.induct)
  case (2 n)
  then show ?case by (cases n) simp_all
qed auto

lemma map_rx_error_last:
  assumes "f p = Inl e" and "\<And>q e'. f q = Inl e' \<Longrightarrow> e' = e"
  shows "map_rx f (map Next ps @ Next p # rest) \<noteq> [] \<and>
         last (map_rx f (map Next ps @ Next p # rest)) = Error e \<and>
         length (map_rx f (map Next ps @ Next p # rest)) \<le> Suc (length ps)"
proof (induction ps)
  case Nil
  then show ?case using assms(1) by simp
next
  case (Cons q ps)
  show ?case
  proof (cases "f q")
    case (Inl e')
    then have "e' = e" by (rule assms(2))
    then show ?thesis using Inl by simp
  next
    case (Inr y)
    then show ?thesis using Cons by simp
  qed
qed

subsection \<open>The price callback\<close>

lemma convertPrice_in_range:
  "\<bar>token_pool p\<bar> < 2 ^ 53 \<Longrightarrow> \<bar>vtoken_pool p\<bar> < 2 ^ 53 \<Longrightarrow>
   convertPrice p =
     (if vtoken_pool p \<noteq> 0 then (Inr (PBN (token_pool p sdiv vtoken_pool p)), 1)
      else (Inr (PNum (Fin 0)), 0))"
  by (simp add: convertPrice_def BN_toNumber_def BN_of_number_def BN_div_def)

lemma convertPrice_too_large:
  "2 ^ 53 \<le> \<bar>token_pool p\<bar> \<or> 2 ^ 53 \<le> \<bar>vtoken_pool p\<bar> \<Longrightarrow>
   convertPrice p = (Inl NumberTooLarge, 0)"
  by (auto simp add: convertPrice_def BN_toNumber_def BN_of_number_def BN_div_def)

lemma convertPrice_error: "fst (convertPrice p) = Inl e \<Longrightarrow> e = NumberTooLarge"
  by (auto simp add: convertPrice_def BN_toNumber_def Let_def split: if_splits)

lemma getConvertPriceInfo_eq:
  "getConvertPriceInfo instanceId api tokenSymbol preBlockHash =
   map_rx (\<lambda>result. fst (convertPrice result)) (getPoolInfo instanceId api tokenSymbol preBlockHash)"
  by (simp add: getConvertPriceInfo_def memo_def)

lemma getPoolInfo_example:
  "getPoolInfo instanceId (exampleApi now past) tokenSymbol None =
     [Next \<lparr>current_reward = 0, pending_reward = 0,
            token_pool = fst (now tokenSymbol), vtoken_pool = snd (now tokenSymbol)\<rparr>]"
  "getPoolInfo instanceId (exampleApi now past) tokenSymbol (Some h) =
     [Next \<lparr>current_reward = 0, pending_reward = 0,
            token_pool = fst (past h tokenSymbol), vtoken_pool = snd (past h tokenSymbol)\<rparr>, Complete]"
  by (simp_all add: getPoolInfo_def memo_def exampleApi_def poolOf_def BN_of_number_def)

subsection \<open>Conversion price\<close>

text \<open>
  Claim C1, as amended.  When a pool state arrives whose \<open>vtoken_pool\<close> is nonzero and
  divides its \<open>token_pool\<close>, both being below \<open>2\<^sup>5\<^sup>3\<close> in magnitude (as are the pools
  of the states before it), the price stream emits for it a price that, as a native
  number, equals \<open>token_pool / vtoken_pool\<close>.  The operands are not truncated.  Nothing
  is said here about a quotient that is not whole.
\<close>

theorem price_is_the_quotient:
  assumes "getPoolInfo instanceId api tokenSymbol preBlockHash = map Next ps @ Next p # rest"
    and "\<forall>q\<in>set ps. \<bar>token_pool q\<bar> < 2 ^ 53 \<and> \<bar>vtoken_pool q\<bar> < 2 ^ 53"
    and "vtoken_pool p \<noteq> 0" and "vtoken_pool p dvd token_pool p"
    and "\<bar>token_pool p\<bar> < 2 ^ 53" and "\<bar>vtoken_pool p\<bar> < 2 ^ 53"
  shows "length ps < length (getConvertPriceInfo instanceId api tokenSymbol preBlockHash) \<and>
         (\<exists>v. getConvertPriceInfo instanceId api tokenSymbol preBlockHash ! length ps = Next v \<and>
              toNumber (Some v) =
                jdiv (Fin (of_int (token_pool p))) (Fin (of_int (vtoken_pool p))))"
proof -
  let ?f = "\<lambda>result. fst (convertPrice result)"
  let ?v = "PBN (token_pool p sdiv vtoken_pool p)"
  have ok: "\<forall>q\<in>set ps. \<exists>y. ?f q = Inr y"
    using assms(2) by (simp add: convertPrice_in_range)
  have here: "map_rx ?f (Next p # rest) = Next ?v # map_rx ?f rest"
    using assms(3,5,6) by (simp add: convertPrice_in_range)
  have "length (map_rx ?f (map Next ps @ Next p # rest)) = length ps + Suc (length (map_rx ?f rest))"
    using map_rx_prefix_length [OF ok, of "Next p # rest"] here by simp
  moreover have "map_rx ?f (map Next ps @ Next p # rest) ! length ps = Next ?v"
    using map_rx_prefix_nth [OF ok, of "Next p # rest" 0] here by simp
  moreover have "toNumber (Some ?v) =
      jdiv (Fin (of_int (token_pool p))) (Fin (of_int (vtoken_pool p)))"
    using assms(4,3,5) by (rule native_quotient_exact)
  ultimately show ?thesis
    by (simp add: getConvertPriceInfo_eq assms(1))
qed

theorem price_is_the_quotient_witness:
  "\<exists>v. getConvertPriceInfo ''i'' (exampleApi (\<lambda>_. (1000, 100)) (\<lambda>_ _. (0, 0))) ''vDOT'' None ! 0 = Next v \<and>
       toNumber (Some v) = jdiv (Fin 1000) (Fin 100) \<and> toNumber (Some v) = Fin 10"
proof -
  let ?api = "exampleApi (\<lambda>_. (1000, 100)) (\<lambda>_ _. (0, 0))"
  let ?p = "\<lparr>current_reward = 0, pending_reward = 0, token_pool = 1000, vtoken_pool = 100\<rparr>"
  have pool: "getPoolInfo ''i'' ?api ''vDOT'' None = map Next [] @ Next ?p # []"
    by (simp add: getPoolInfo_example)
  have ten: "jdiv (Fin 1000) (Fin 100) = Fin 10"
    by code_simp
  have "\<exists>v. getConvertPriceInfo ''i'' ?api ''vDOT'' None ! length ([] :: convertPool list) = Next v \<and>
          toNumber (Some v) = jdiv (Fin (of_int (token_pool ?p))) (Fin (of_int (vtoken_pool ?p)))"
    using price_is_the_quotient [OF pool] by simp
  then show ?thesis
    using ten by simp
qed

text \<open>
  Claim C1 as stated fails.  For a pool state with \<open>token_pool = 2\<^sup>5\<^sup>3\<close> and
  \<open>vtoken_pool = 1\<close> no price is emitted: the stream ends with an error.  For
  \<open>token_pool = 7\<close> and \<open>vtoken_pool = 2\<close> the price emitted is the \<open>BN\<close> three, while
  \<open>7 / 2\<close> is \<open>3.5\<close>.
\<close>

theorem price_not_truncated_counterexample:
  "getPoolInfo ''i'' (exampleApi (\<lambda>_. (2 ^ 53, 1)) (\<lambda>_ _. (0, 0))) ''vDOT'' None =
     [Next \<lparr>current_reward = 0, pending_reward = 0, token_pool = 2 ^ 53, vtoken_pool = 1\<rparr>] \<and>
   getConvertPriceInfo ''i'' (exampleApi (\<lambda>_. (2 ^ 53, 1)) (\<lambda>_ _. (0, 0))) ''vDOT'' None =
     [Error NumberTooLarge] \<and>
   getConvertPriceInfo ''i'' (exampleApi (\<lambda>_. (7, 2)) (\<lambda>_ _. (0, 0))) ''vDOT'' None =
     [Next (PBN 3)] \<and>
   toNumber (Some (PBN 3)) = Fin 3 \<and> jdiv (Fin 7) (Fin 2) = Fin (7 / 2)"
proof -
  have "getPoolInfo ''i'' (exampleApi (\<lambda>_. (2 ^ 53, 1)) (\<lambda>_ _. (0, 0))) ''vDOT'' None =
     [Next \<lparr>current_reward = 0, pending_reward = 0, token_pool = 2 ^ 53, vtoken_pool = 1\<rparr>] \<and>
   getConvertPriceInfo ''i'' (exampleApi (\<lambda>_. (2 ^ 53, 1)) (\<lambda>_ _. (0, 0))) ''vDOT'' None =
     [Error NumberTooLarge]"
    by (simp add: getConvertPriceInfo_eq getPoolInfo_example convertPrice_too_large)
  moreover have "getConvertPriceInfo ''i'' (exampleApi (\<lambda>_. (7, 2)) (\<lambda>_ _. (0, 0))) ''vDOT'' None =
     [Next (PBN 3)]"
    by code_simp
  moreover have "toNumber (Some (PBN 3)) = Fin 3"
    by code_simp
  moreover have "jdiv (Fin 7) (Fin 2) = Fin (7 / 2)"
    by code_simp
  ultimately show ?thesis by (intro conjI) simp_all
qed

text \<open>
  Claim C3, as amended.  When a pool state with \<open>vtoken_pool = 0\<close> arrives whose
  \<open>token_pool\<close> is below \<open>2\<^sup>5\<^sup>3\<close> in magnitude (the states before it being in range),
  the price stream emits the native number \<open>0\<close> for it and \<open>div\<close> is not called.
\<close>

theorem zero_vtoken_pool_gives_zero:
  assumes "getPoolInfo instanceId api tokenSymbol preBlockHash = map Next ps @ Next p # rest"
    and "\<forall>q\<in>set ps. \<bar>token_pool q\<bar> < 2 ^ 53 \<and> \<bar>vtoken_pool q\<bar> < 2 ^ 53"
    and "vtoken_pool p = 0"
    and "\<bar>token_pool p\<bar> < 2 ^ 53"
  shows "length ps < length (getConvertPriceInfo instanceId api tokenSymbol preBlockHash) \<and>
         getConvertPriceInfo instanceId api tokenSymbol preBlockHash ! length ps = Next (PNum (Fin 0)) \<and>
         snd (convertPrice p) = 0"
proof -
  let ?f = "\<lambda>result. fst (convertPrice result)"
  have ok: "\<forall>q\<in>set ps. \<exists>y. ?f q = Inr y"
    using assms(2) by (simp add: convertPrice_in_range)
  have p: "convertPrice p = (Inr (PNum (Fin 0)), 0)"
    using assms(3,4) by (simp add: convertPrice_in_range)
  then have here: "map_rx ?f (Next p # rest) = Next (PNum (Fin 0)) # map_rx ?f rest"
    by simp
  have "length (map_rx ?f (map Next ps @ Next p # rest)) = length ps + Suc (length (map_rx ?f rest))"
    using map_rx_prefix_length [OF ok, of "Next p # rest"] here by simp
  moreover have "map_rx ?f (map Next ps @ Next p # rest) ! length ps = Next (PNum (Fin 0))"
    using map_rx_prefix_nth [OF ok, of "Next p # rest" 0] here by simp
  ultimately show ?thesis
    using p by (simp add: getConvertPriceInfo_eq assms(1))
qed

theorem zero_vtoken_pool_gives_zero_witness:
  "getConvertPriceInfo ''i'' (exampleApi (\<lambda>_. (1000, 0)) (\<lambda>_ _. (0, 0))) ''vDOT'' None ! 0 = Next (PNum (Fin 0)) \<and>
   snd (convertPrice \<lparr>current_reward = 0, pending_reward = 0, token_pool = 1000, vtoken_pool = 0\<rparr>) = 0"
  using zero_vtoken_pool_gives_zero [of "''i''" "exampleApi (\<lambda>_. (1000, 0)) (\<lambda>_ _. (0, 0))" "''vDOT''" None "[]"
      "\<lparr>current_reward = 0, pending_reward = 0, token_pool = 1000, vtoken_pool = 0\<rparr>" "[]"]
  by (simp add: getPoolInfo_example)

text \<open>
  Claim C3 as stated fails: \<open>token_pool\<close> is converted before \<open>vtoken_pool\<close> is looked
  at, so a state with \<open>token_pool = 2\<^sup>5\<^sup>3\<close> and \<open>vtoken_pool = 0\<close> ends the stream with
  an error instead of a \<open>0\<close>.
\<close>

theorem zero_vtoken_pool_counterexample:
  "getPoolInfo ''i'' (exampleApi (\<lambda>_. (2 ^ 53, 0)) (\<lambda>_ _. (0, 0))) ''vDOT'' None =
     [Next \<lparr>current_reward = 0, pending_reward = 0, token_pool = 2 ^ 53, vtoken_pool = 0\<rparr>] \<and>
   getConvertPriceInfo ''i'' (exampleApi (\<lambda>_. (2 ^ 53, 0)) (\<lambda>_ _. (0, 0))) ''vDOT'' None =
     [Error NumberTooLarge]"
  by (simp add: getConvertPriceInfo_eq getPoolInfo_example convertPrice_too_large)

text \<open>
  Claim C10.  When a pool state arrives whose \<open>token_pool\<close> or \<open>vtoken_pool\<close> is
  \<open>2\<^sup>5\<^sup>3\<close> or more in magnitude, the price stream ends with the error of \<open>toNumber\<close>,
  at that state or before it: no price is emitted for the state.
\<close>

theorem too_large_pool_is_an_error:
  assumes "getPoolInfo instanceId api tokenSymbol preBlockHash = map Next ps @ Next p # rest"
    and "2 ^ 53 \<le> \<bar>token_pool p\<bar> \<or> 2 ^ 53 \<le> \<bar>vtoken_pool p\<bar>"
  shows "getConvertPriceInfo instanceId api tokenSymbol preBlockHash \<noteq> [] \<and>
         last (getConvertPriceInfo instanceId api tokenSymbol preBlockHash) = Error NumberTooLarge \<and>
         length (getConvertPriceInfo instanceId api tokenSymbol preBlockHash) \<le> Suc (length ps)"
proof -
  let ?f = "\<lambda>result. fst (convertPrice result)"
  have "?f p = Inl NumberTooLarge"
    using assms(2) by (simp add: convertPrice_too_large)
  then show ?thesis
    unfolding getConvertPriceInfo_eq assms(1)
    by (rule map_rx_error_last) (rule convertPrice_error)
qed

theorem too_large_pool_is_an_error_witness:
  "last (getConvertPriceInfo ''i'' (exampleApi (\<lambda>_. (5, 2 ^ 60)) (\<lambda>_ _. (0, 0))) ''vDOT'' None) = Error NumberTooLarge \<and>
   length (getConvertPriceInfo ''i'' (exampleApi (\<lambda>_. (5, 2 ^ 60)) (\<lambda>_ _. (0, 0))) ''vDOT'' None) \<le> 1"
  using too_large_pool_is_an_error [of "''i''" "exampleApi (\<lambda>_. (5, 2 ^ 60)) (\<lambda>_ _. (0, 0))" "''vDOT''" None "[]"
      "\<lparr>current_reward = 0, pending_reward = 0, token_pool = 5, vtoken_pool = 2 ^ 60\<rparr>" "[]"]
  by (simp add: getPoolInfo_example)

subsection \<open>The operator \<open>combineLatest\<close>\<close>

lemma nones_update_add:
  "i < length xs \<Longrightarrow>
   nones (xs[i := Some v]) + (if xs ! i = None then 1 else 0) = nones xs"
proof (induction xs arbitrary: i)
  case Nil
  then show ?case by simp
next
  case (Cons x xs)
  show ?case
  proof (cases i)
    case 0
    then show ?thesis by (simp add: nones_def)
  next
    case (Suc j)
    then have "j < length xs" using Cons.prems by simp
    from Cons.IH [OF this] show ?thesis
      using Suc by (auto simp: nones_def split: if_splits)
  qed
qed

lemma nones_update:
  "i < length xs \<Longrightarrow>
   nones (xs[i := Some v]) = (if xs ! i = None then nones xs - 1 else nones xs)"
  using nones_update_add [of i xs v] by (cases "xs ! i") simp_all

lemma nones_zero: "nones xs = 0 \<longleftrightarrow> (\<forall>x\<in>set xs. x \<noteq> None)"
  by (induction xs) (auto simp: nones_def)

lemma nones_pos: "i < length xs \<Longrightarrow> xs ! i = None \<Longrightarrow> 0 < nones xs"
  using nones_zero [of xs] by (metis gr0I nth_mem)

lemma cl_inv_next:
  assumes "cl_inv n S st" and "i < n" and "cl_observables st ! i = Next v # rest"
  shows "cl_inv n S
           (st\<lparr>cl_values := (cl_values st)[i := Some v],
                cl_toRespond := (if cl_toRespond st = 0 then 0
                                 else if cl_values st ! i = None then cl_toRespond st - 1
                                 else cl_toRespond st),
                cl_observables := (cl_observables st)[i := rest]\<rparr>)"
proof -
  have len: "length (cl_values st) = n" "length (cl_observables st) = n"
    and resp: "cl_toRespond st = int (nones (cl_values st))"
    and vals: "\<forall>j<n. \<forall>w. cl_values st ! j = Some w \<longrightarrow> Next w \<in> S j"
    and obs: "\<forall>j<n. set (cl_observables st ! j) \<subseteq> S j"
    using assms(1) by (auto simp: cl_inv_def)
  have v: "Next v \<in> S i" and rest: "set rest \<subseteq> S i"
    using obs assms(2,3) by fastforce+
  have "int (nones ((cl_values st)[i := Some v])) =
        (if cl_toRespond st = 0 then 0
         else if cl_values st ! i = None then cl_toRespond st - 1 else cl_toRespond st)"
    using nones_update_add [of i "cl_values st" v] len assms(2) resp by auto
  moreover have "\<forall>j<n. \<forall>w. (cl_values st)[i := Some v] ! j = Some w \<longrightarrow> Next w \<in> S j"
    using vals v len assms(2) by (auto simp: nth_list_update)
  moreover have "\<forall>j<n. set ((cl_observables st)[i := rest] ! j) \<subseteq> S j"
    using obs rest len assms(2) by (auto simp: nth_list_update)
  ultimately show ?thesis
    using len by (simp add: cl_inv_def)
qed

lemma cl_inv_complete:
  assumes "cl_inv n S st"
  shows "cl_inv n S (st\<lparr>cl_active := a, cl_observables := (cl_observables st)[i := []]\<rparr>)"
proof (cases "i < n")
  case True
  then show ?thesis
    using assms by (auto simp: cl_inv_def nth_list_update)
next
  case False
  then show ?thesis
    using assms by (auto simp: cl_inv_def)
qed

lemma cl_inv_full:
  assumes "cl_inv n S st" and "cl_toRespond st = 0"
  shows "length (cl_values st) = n \<and> (\<forall>i<n. \<exists>v. cl_values st ! i = Some v \<and> Next v \<in> S i)"
proof -
  have "\<forall>x\<in>set (cl_values st). x \<noteq> None"
    using assms nones_zero [of "cl_values st"] by (simp add: cl_inv_def)
  then have "\<forall>i<n. \<exists>v. cl_values st ! i = Some v"
    using assms(1) by (metis cl_inv_def not_None_eq nth_mem)
  then show ?thesis
    using assms(1) by (auto simp: cl_inv_def)
qed

lemma cl_run_emits:
  assumes "Next vs \<in> set (cl_run sch st)" and "cl_inv n S st"
  shows "length vs = n \<and> (\<forall>i<n. \<exists>v. vs ! i = Some v \<and> Next v \<in> S i)"
  using assms
proof (induction sch arbitrary: st)
  case Nil
  then show ?case by simp
next
  case (Cons i sch)
  have len: "length (cl_observables st) = n"
    using Cons.prems(2) by (simp add: cl_inv_def)
  show ?case
  proof (cases "i < n")
    case False
    then show ?thesis
      using Cons len by simp
  next
    case True
    show ?thesis
    proof (cases "cl_observables st ! i")
      case Nil
      then show ?thesis
        using Cons True len by simp
    next
      case (Cons a rest)
      note obs = this
      show ?thesis
      proof (cases a)
        case (Next v)
        let ?st' = "st\<lparr>cl_values := (cl_values st)[i := Some v],
                cl_toRespond := (if cl_toRespond st = 0 then 0
                                 else if cl_values st ! i = None then cl_toRespond st - 1
                                 else cl_toRespond st),
                cl_observables := (cl_observables st)[i := rest]\<rparr>"
        have inv': "cl_inv n S ?st'"
          using cl_inv_next [OF Cons.prems(2) True] obs Next by simp
        have "Next vs \<in> set (cl_run sch ?st') \<or> (cl_toRespond ?st' = 0 \<and> vs = cl_values ?st')"
          using Cons.prems(1) True len obs Next by (auto simp: Let_def split: if_splits)
        then show ?thesis
        proof
          assume "Next vs \<in> set (cl_run sch ?st')"
          then show ?thesis using Cons.IH inv' by blast
        next
          assume "cl_toRespond ?st' = 0 \<and> vs = cl_values ?st'"
          then show ?thesis using cl_inv_full [OF inv'] by blast
        qed
      next
        case (Error e)
        then show ?thesis
          using Cons.prems(1) True len obs by simp
      next
        case Complete
        then have "Next vs \<in> set (cl_run sch (st\<lparr>cl_active := cl_active st - 1,
                     cl_observables := (cl_observables st)[i := []]\<rparr>))"
          using Cons.prems(1) True len obs by (simp split: if_splits)
        then show ?thesis
          using Cons.IH cl_inv_complete [OF Cons.prems(2)] by blast
      qed
    qed
  qed
qed

lemma nones_replicate: "nones (replicate n None) = n"
  by (simp add: nones_def)

lemma combineLatest_emits:
  assumes "Next vs \<in> set (combineLatest sch observables)"
  shows "length vs = length observables \<and>
         (\<forall>i<length observables. \<exists>v. vs ! i = Some v \<and> Next v \<in> set (observables ! i))"
proof (cases "observables = []")
  case True
  then show ?thesis
    using assms by (simp add: combineLatest_def)
next
  case False
  let ?n = "length observables"
  let ?st = "\<lparr>cl_values = replicate ?n None, cl_active = int ?n,
              cl_toRespond = int ?n, cl_observables = observables\<rparr>"
  have "cl_inv ?n (\<lambda>i. set (observables ! i)) ?st"
    by (simp add: cl_inv_def nones_replicate)
  moreover have "Next vs \<in> set (cl_run sch ?st)"
    using assms False by (simp add: combineLatest_def Let_def)
  ultimately show ?thesis
    by (rule cl_run_emits [rotated])
qed


lemma closed_Next: "closed (Next x # ns) = closed ns"
  by (cases ns) simp_all

lemma closed_cl_run: "closed (cl_run sch st)"
proof (induction sch arbitrary: st)
  case Nil
  then show ?case by simp
next
  case (Cons i sch)
  show ?case
  proof (cases "length (cl_observables st) \<le> i")
    case True
    then show ?thesis using Cons by simp
  next
    case False
    show ?thesis
    proof (cases "cl_observables st ! i")
      case Nil
      then show ?thesis using Cons False by simp
    next
      case (Cons a rest)
      then show ?thesis
        using Cons.IH False by (cases a) (simp_all add: Let_def closed_Next)
    qed
  qed
qed

lemma closed_combineLatest: "closed (combineLatest sch observables)"
  by (simp add: combineLatest_def Let_def closed_cl_run)

text \<open>
  The combination does emit: when every source delivers a value first, no source fails,
  and the order lets every source deliver, a list is emitted.
\<close>

lemma pending_update_nil:
  "i < length obs \<Longrightarrow> obs ! i \<noteq> [] \<Longrightarrow> Suc (pending (obs[i := []])) = pending obs"
proof (induction obs arbitrary: i)
  case Nil
  then show ?case by simp
next
  case (Cons ob obs)
  show ?case
  proof (cases i)
    case 0
    then show ?thesis using Cons.prems by (simp add: pending_def)
  next
    case (Suc j)
    then have "Suc (pending (obs[j := []])) = pending obs"
      using Cons by simp
    then show ?thesis using Suc by (simp add: pending_def)
  qed
qed

lemma pending_update_le:
  "i < length obs \<Longrightarrow> obs ! i \<noteq> [] \<Longrightarrow> pending (obs[i := r]) \<le> pending obs"
proof (induction obs arbitrary: i)
  case Nil
  then show ?case by simp
next
  case (Cons ob obs)
  show ?case
  proof (cases i)
    case 0
    then show ?thesis using Cons.prems by (simp add: pending_def)
  next
    case (Suc j)
    then have "pending (obs[j := r]) \<le> pending obs"
      using Cons by simp
    then show ?thesis using Suc by (simp add: pending_def)
  qed
qed

lemma pending_pos: "i < length obs \<Longrightarrow> obs ! i \<noteq> [] \<Longrightarrow> 0 < pending obs"
  using pending_update_nil [of i obs] by simp

lemma pending_two:
  assumes "i < length obs" and "j < length obs" and "i \<noteq> j"
    and "obs ! i \<noteq> []" and "obs ! j \<noteq> []"
  shows "2 \<le> pending obs"
proof -
  have "0 < pending (obs[i := []])"
    using assms by (intro pending_pos [of j]) simp_all
  then show ?thesis
    using pending_update_nil [OF assms(1,4)] by simp
qed

lemma nones_witness: "0 < nones xs \<Longrightarrow> \<exists>i<length xs. xs ! i = None"
  using nones_zero [of xs] by (metis in_set_conv_nth neq0_conv)

lemma cl_run_responds:
  assumes "cl_inv n S st"
    and "0 < cl_toRespond st"
    and "\<forall>i<n. cl_values st ! i = None \<longrightarrow> (\<exists>v rest. cl_observables st ! i = Next v # rest)"
    and "\<forall>i<n. \<forall>e. Error e \<notin> set (cl_observables st ! i)"
    and "int (pending (cl_observables st)) \<le> cl_active st"
    and "\<forall>i<n. cl_values st ! i = None \<longrightarrow> i \<in> set sch"
  shows "\<exists>vs. Next vs \<in> set (cl_run sch st)"
  using assms
proof (induction sch arbitrary: st)
  case Nil
  have "0 < nones (cl_values st)"
    using Nil.prems(1,2) by (simp add: cl_inv_def)
  then obtain i where "i < length (cl_values st)" "cl_values st ! i = None"
    using nones_witness by blast
  then show ?case
    using Nil.prems(1,6) by (auto simp: cl_inv_def)
next
  case (Cons i sch)
  have len: "length (cl_values st) = n" "length (cl_observables st) = n"
    and resp: "cl_toRespond st = int (nones (cl_values st))"
    using Cons.prems(1) by (simp_all add: cl_inv_def)
  obtain j where j: "j < n" "cl_values st ! j = None"
    using nones_witness [of "cl_values st"] Cons.prems(2) resp len by auto
  then obtain vj restj where obsj: "cl_observables st ! j = Next vj # restj"
    using Cons.prems(3) by blast
  show ?case
  proof (cases "i < n")
    case False
    then have "\<forall>k<n. cl_values st ! k = None \<longrightarrow> k \<in> set sch"
      using Cons.prems(6) by auto
    then show ?thesis
      using Cons.IH [OF Cons.prems(1-5)] False len by simp
  next
    case True
    show ?thesis
    proof (cases "cl_observables st ! i")
      case Nil
      then have "cl_values st ! i \<noteq> None"
        using Cons.prems(3) True by auto
      then have "\<forall>k<n. cl_values st ! k = None \<longrightarrow> k \<in> set sch"
        using Cons.prems(6) by auto
      then show ?thesis
        using Cons.IH [OF Cons.prems(1-5)] True len Nil by simp
    next
      case (Cons a rest)
      note obs = this
      show ?thesis
      proof (cases a)
        case (Next v)
        let ?resp = "if cl_toRespond st = 0 then 0
                     else if cl_values st ! i = None then cl_toRespond st - 1
                     else cl_toRespond st"
        let ?st' = "st\<lparr>cl_values := (cl_values st)[i := Some v], cl_toRespond := ?resp,
                        cl_observables := (cl_observables st)[i := rest]\<rparr>"
        have run: "cl_run (i # sch) st =
                   (if ?resp = 0 then Next ((cl_values st)[i := Some v]) # cl_run sch ?st'
                    else cl_run sch ?st')"
          using True len obs Next by (simp add: Let_def)
        show ?thesis
        proof (cases "?resp = 0")
          case True
          then show ?thesis using run by auto
        next
          case False
          have inv': "cl_inv n S ?st'"
            using cl_inv_next [OF Cons.prems(1) True] obs Next by simp
          have first': "\<forall>k<n. cl_values ?st' ! k = None \<longrightarrow>
                          (\<exists>w r. cl_observables ?st' ! k = Next w # r)"
            using Cons.prems(3) True len by (auto simp: nth_list_update)
          have noerr': "\<forall>k<n. \<forall>e. Error e \<notin> set (cl_observables ?st' ! k)"
          proof (intro allI impI)
            fix k e
            assume "k < n"
            have "Error e \<notin> set (cl_observables st ! i)"
              using Cons.prems(4) True by blast
            then have "Error e \<notin> set rest"
              using obs by simp
            then show "Error e \<notin> set (cl_observables ?st' ! k)"
              using Cons.prems(4) \<open>k < n\<close> True len by (simp add: nth_list_update)
          qed
          have act': "int (pending (cl_observables ?st')) \<le> cl_active ?st'"
            using pending_update_le [of i "cl_observables st" rest] Cons.prems(5) True len obs
            by simp
          have fair': "\<forall>k<n. cl_values ?st' ! k = None \<longrightarrow> k \<in> set sch"
            using Cons.prems(6) True len by (auto simp: nth_list_update split: if_splits)
          have "?resp = int (nones ((cl_values st)[i := Some v]))"
            using inv' by (simp add: cl_inv_def)
          then have "0 \<le> ?resp"
            by (simp only: of_nat_0_le_iff)
          then have "0 < cl_toRespond ?st'"
            using False by simp
          from Cons.IH [OF inv' this first' noerr' act' fair']
          show ?thesis using run False by simp
        qed
      next
        case (Error e)
        then show ?thesis
          using Cons.prems(4) True obs by (metis list.set_intros(1))
      next
        case Complete
        have "i \<noteq> j"
          using obs Complete obsj by auto
        then have "2 \<le> pending (cl_observables st)"
          using pending_two [of i "cl_observables st" j] True j(1) len obs obsj by simp
        then have act: "2 \<le> cl_active st"
          using Cons.prems(5) by simp
        let ?st' = "st\<lparr>cl_active := cl_active st - 1,
                        cl_observables := (cl_observables st)[i := []]\<rparr>"
        have run: "cl_run (i # sch) st = cl_run sch ?st'"
          using True len obs Complete act by simp
        have inv': "cl_inv n S ?st'"
          by (rule cl_inv_complete [OF Cons.prems(1)])
        have vi: "cl_values st ! i \<noteq> None"
          using Cons.prems(3) True obs Complete by auto
        have first': "\<forall>k<n. cl_values ?st' ! k = None \<longrightarrow>
                        (\<exists>w r. cl_observables ?st' ! k = Next w # r)"
          using Cons.prems(3) True len vi by (auto simp: nth_list_update)
        have noerr': "\<forall>k<n. \<forall>e. Error e \<notin> set (cl_observables ?st' ! k)"
          using Cons.prems(4) True len by (auto simp: nth_list_update)
        have act': "int (pending (cl_observables ?st')) \<le> cl_active ?st'"
          using pending_update_nil [of i "cl_observables st"] Cons.prems(5) True len obs
          by simp
        have fair': "\<forall>k<n. cl_values ?st' ! k = None \<longrightarrow> k \<in> set sch"
          using Cons.prems(6) vi by auto
        have "0 < cl_toRespond ?st'"
          using Cons.prems(2) by simp
        from Cons.IH [OF inv' this first' noerr' act' fair']
        show ?thesis using run by simp
      qed
    qed
  qed
qed

lemma pending_le_length: "pending obs \<le> length obs"
  by (simp add: pending_def)

lemma combineLatest_responds:
  assumes "observables \<noteq> []"
    and "\<forall>i<length observables. \<exists>v rest. observables ! i = Next v # rest"
    and "\<forall>i<length observables. \<forall>e. Error e \<notin> set (observables ! i)"
    and "\<forall>i<length observables. i \<in> set sch"
  shows "\<exists>vs. Next vs \<in> set (combineLatest sch observables)"
proof -
  let ?n = "length observables"
  let ?st = "\<lparr>cl_values = replicate ?n None, cl_active = int ?n,
              cl_toRespond = int ?n, cl_observables = observables\<rparr>"
  have "cl_inv ?n (\<lambda>i. set (observables ! i)) ?st"
    by (simp add: cl_inv_def nones_replicate)
  moreover have "0 < cl_toRespond ?st"
    using assms(1) by simp
  moreover have "\<forall>i<?n. cl_values ?st ! i = None \<longrightarrow>
                   (\<exists>v rest. cl_observables ?st ! i = Next v # rest)"
    using assms(2) by simp
  moreover have "\<forall>i<?n. \<forall>e. Error e \<notin> set (cl_observables ?st ! i)"
    using assms(3) by simp
  moreover have "int (pending (cl_observables ?st)) \<le> cl_active ?st"
    by (simp add: pending_le_length)
  moreover have "\<forall>i<?n. cl_values ?st ! i = None \<longrightarrow> i \<in> set sch"
    using assms(4) by simp
  ultimately have "\<exists>vs. Next vs \<in> set (cl_run sch ?st)"
    by (rule cl_run_responds)
  then show ?thesis
    using assms(1) by (simp add: combineLatest_def Let_def)
qed

lemma set_update_all:
  assumes "\<forall>ob\<in>set obs. P ob" and "P r"
  shows "\<forall>ob\<in>set (obs[k := r]). P ob"
  using assms by (metis insertE set_update_subset_insert subsetD)

lemma cl_run_no_error:
  assumes "\<forall>ob\<in>set (cl_observables st). Error e \<notin> set ob"
  shows "Error e \<notin> set (cl_run sch st)"
  using assms
proof (induction sch arbitrary: st)
  case Nil
  then show ?case by simp
next
  case (Cons i sch)
  show ?case
  proof (cases "length (cl_observables st) \<le> i")
    case True
    then show ?thesis using Cons by simp
  next
    case False
    then have i: "i < length (cl_observables st)" by simp
    then have here: "Error e \<notin> set (cl_observables st ! i)"
      using Cons.prems by simp
    show ?thesis
    proof (cases "cl_observables st ! i")
      case Nil
      then show ?thesis using Cons i by simp
    next
      case (Cons a rest)
      note obs = this
      have upd: "\<forall>ob\<in>set ((cl_observables st)[i := r]). Error e \<notin> set ob"
        if "Error e \<notin> set r" for r
        using Cons.prems that by (rule set_update_all)
      show ?thesis
      proof (cases a)
        case (Next v)
        have "Error e \<notin> set rest" using here obs by simp
        then have "Error e \<notin> set (cl_run sch
            (st\<lparr>cl_values := vals, cl_toRespond := resp,
                 cl_observables := (cl_observables st)[i := rest]\<rparr>))" for vals resp
          using Cons.IH upd by simp
        then show ?thesis using i obs Next by (simp add: Let_def)
      next
        case (Error e')
        then show ?thesis using i obs here by auto
      next
        case Complete
        have "Error e \<notin> set (cl_run sch
            (st\<lparr>cl_active := cl_active st - 1, cl_observables := (cl_observables st)[i := []]\<rparr>))"
          using Cons.IH upd [of "[]"] by simp
        then show ?thesis using i obs Complete by simp
      qed
    qed
  qed
qed

lemma combineLatest_no_error:
  "\<forall>ob\<in>set observables. Error e \<notin> set ob \<Longrightarrow> Error e \<notin> set (combineLatest sch observables)"
  by (simp add: combineLatest_def Let_def cl_run_no_error)

lemma closed_first: "closed ns \<Longrightarrow> Next v \<in> set ns \<Longrightarrow> \<exists>w rest. ns = Next w # rest"
  by (induction ns rule: closed.induct) auto

subsection \<open>Annualized rate\<close>

lemma getAnnualizedRate_eq:
  "getAnnualizedRate env instanceId api tokenSymbol =
   map (map_notif annualizedRate) (pricePairs env instanceId api tokenSymbol)"
proof -
  have "closed (pricePairs env instanceId api tokenSymbol)"
    by (simp add: pricePairs_def Let_def closed_combineLatest)
  then show ?thesis
    by (simp add: getAnnualizedRate_def memo_def map_rx_closed)
qed

lemma annualizedRate_nonzero:
  "\<not> isZero historicalPrice \<Longrightarrow>
   annualizedRate [Some currentPrice, Some historicalPrice] =
     jmul (jdiv (jdiv (jsub (toNumber (Some currentPrice)) (toNumber (Some historicalPrice)))
                      (toNumber (Some historicalPrice)))
                (Fin 7))
          (Fin 365)"
  by (cases historicalPrice) (simp_all add: annualizedRate_def element_def)

text \<open>
  Claim C4.  For every pair of a current and a historical price that the combination
  delivers, the historical price not being zero, the rate emitted for the pair is
  \<open>(currentPrice - historicalPrice) / historicalPrice / 7 * 365\<close>, computed on native
  numbers.
\<close>

theorem rate_formula:
  assumes "k < length (pricePairs env instanceId api tokenSymbol)"
    and "pricePairs env instanceId api tokenSymbol ! k = Next [Some currentPrice, Some historicalPrice]"
    and "\<not> isZero historicalPrice"
  shows "k < length (getAnnualizedRate env instanceId api tokenSymbol) \<and>
         getAnnualizedRate env instanceId api tokenSymbol ! k =
           Next (jmul (jdiv (jdiv (jsub (toNumber (Some currentPrice)) (toNumber (Some historicalPrice)))
                                  (toNumber (Some historicalPrice)))
                            (Fin 7))
                      (Fin 365))"
  using assms by (simp add: getAnnualizedRate_eq annualizedRate_nonzero)

lemma pricePairs_example:
  "pricePairs (exampleEnv [0, 1, 1] [0, 1, 1]) ''i'' (exampleApi (\<lambda>_. (12, 1)) (\<lambda>_ _. (10, 1))) ''vDOT'' =
     [Next [Some (PBN 12), Some (PBN 10)]]"
  by code_simp

theorem rate_formula_witness:
  "getAnnualizedRate (exampleEnv [0, 1, 1] [0, 1, 1]) ''i'' (exampleApi (\<lambda>_. (12, 1)) (\<lambda>_ _. (10, 1))) ''vDOT'' ! 0 =
     Next (Fin (5870763799965111 / 562949953421312))"
proof -
  let ?pairs = "pricePairs (exampleEnv [0, 1, 1] [0, 1, 1]) ''i'' (exampleApi (\<lambda>_. (12, 1)) (\<lambda>_ _. (10, 1))) ''vDOT''"
  have rate: "jmul (jdiv (jdiv (jsub (toNumber (Some (PBN 12))) (toNumber (Some (PBN 10))))
                         (toNumber (Some (PBN 10)))) (Fin 7)) (Fin 365) =
        Fin (5870763799965111 / 562949953421312)"
    by code_simp
  have len: "0 < length ?pairs"
    unfolding pricePairs_example by simp
  have pair: "?pairs ! 0 = Next [Some (PBN 12), Some (PBN 10)]"
    unfolding pricePairs_example by simp
  have nonzero: "\<not> isZero (PBN 10)"
    by simp
  show ?thesis
    using rate_formula [OF len pair nonzero] unfolding rate by (rule conjunct2)
qed

text \<open>
  Claim C2 at a historical pool with \<open>token_pool = 0\<close> and \<open>vtoken_pool = 5\<close>: its price
  is the \<open>BN\<close> zero, which the guard \<open>historicalPrice !== 0\<close> lets through, and the rate
  emitted is \<open>12 / 0 / 7 * 365\<close>, that is infinity, not \<open>0\<close>.
\<close>

theorem rate_of_zero_quotient:
  "pricePairs (exampleEnv [0, 1, 1] [0, 1, 1]) ''i'' (exampleApi (\<lambda>_. (12, 1)) (\<lambda>_ _. (0, 5))) ''vDOT'' =
     [Next [Some (PBN 12), Some (PBN 0)]] \<and>
   isZero (PBN 0) \<and>
   getAnnualizedRate (exampleEnv [0, 1, 1] [0, 1, 1]) ''i'' (exampleApi (\<lambda>_. (12, 1)) (\<lambda>_ _. (0, 5))) ''vDOT'' =
     [Next PInf]"
  by code_simp

text \<open>The guard does catch the literal \<open>0\<close> that an empty \<open>vtoken_pool\<close> produces.\<close>

lemma annualizedRate_literal_zero:
  "annualizedRate [Some currentPrice, Some (PNum (Fin 0))] = Fin 0"
  by (simp add: annualizedRate_def element_def)

subsection \<open>Batches\<close>

lemma batch_responds:
  assumes "toks \<noteq> []"
    and "\<forall>i<length toks. i \<in> set order"
    and "\<forall>i<length toks. (\<exists>v rest. f (toks ! i) = Next v # rest) \<and> (\<forall>e. Error e \<notin> set (f (toks ! i)))"
  shows "\<exists>vs. Next vs \<in> set (combineLatest order (map f toks))"
proof (rule combineLatest_responds)
  show "map f toks \<noteq> []" using assms(1) by simp
  show "\<forall>i<length (map f toks). \<exists>v rest. map f toks ! i = Next v # rest"
    using assms(3) by simp
  show "\<forall>i<length (map f toks). \<forall>e. Error e \<notin> set (map f toks ! i)"
    using assms(3) by simp
  show "\<forall>i<length (map f toks). i \<in> set order"
    using assms(2) by simp
qed

lemma batch_sound:
  assumes "Next vs \<in> set (combineLatest order (map f toks))"
  shows "length vs = length toks \<and> (\<forall>i<length toks. \<exists>v. vs ! i = Some v \<and> Next v \<in> set (f (toks ! i)))"
  using combineLatest_emits [OF assms] by simp

lemma getAll_eqs:
  assumes "vTokenList = (case vTokenArray of None \<Rightarrow> bifrostVtokenList env | Some a \<Rightarrow> a)"
  shows "getAllVtokenConvertInfo env instanceId api vTokenArray =
           combineLatest (batch_order env) (map (\<lambda>vtk. getPoolInfo instanceId api vtk None) vTokenList)"
    and "getAllConvertPriceInfo env instanceId api vTokenArray =
           combineLatest (batch_order env) (map (\<lambda>vtk. getConvertPriceInfo instanceId api vtk None) vTokenList)"
    and "getAllAnnualizedRate env instanceId api vTokenArray =
           combineLatest (batch_order env) (map (\<lambda>vtk. getAnnualizedRate env instanceId api vtk) vTokenList)"
  by (simp_all add: getAllVtokenConvertInfo_def getAllConvertPriceInfo_def getAllAnnualizedRate_def
      memo_def assms)

text \<open>
  Claim C5.  Whether the token list is given or defaulted, every list that
  \<open>getAllVtokenConvertInfo\<close>, \<open>getAllConvertPriceInfo\<close> or \<open>getAllAnnualizedRate\<close> emits
  has the length of the token list, and its \<open>i\<close>-th element is a value that the single
  derive function emitted for the \<open>i\<close>-th token.  And such a list is emitted: when the
  token list is not empty, the stream of every token delivers a value first and does
  not fail, and the order lets every one of them deliver.
\<close>

theorem batch_lists_follow_the_tokens:
  assumes "vTokenList = (case vTokenArray of None \<Rightarrow> bifrostVtokenList env | Some a \<Rightarrow> a)"
  shows "(\<forall>vs. Next vs \<in> set (getAllVtokenConvertInfo env instanceId api vTokenArray) \<longrightarrow>
            length vs = length vTokenList \<and>
            (\<forall>i<length vTokenList. \<exists>v. vs ! i = Some v \<and>
               Next v \<in> set (getPoolInfo instanceId api (vTokenList ! i) None))) \<and>
         (\<forall>vs. Next vs \<in> set (getAllConvertPriceInfo env instanceId api vTokenArray) \<longrightarrow>
            length vs = length vTokenList \<and>
            (\<forall>i<length vTokenList. \<exists>v. vs ! i = Some v \<and>
               Next v \<in> set (getConvertPriceInfo instanceId api (vTokenList ! i) None))) \<and>
         (\<forall>vs. Next vs \<in> set (getAllAnnualizedRate env instanceId api vTokenArray) \<longrightarrow>
            length vs = length vTokenList \<and>
            (\<forall>i<length vTokenList. \<exists>v. vs ! i = Some v \<and>
               Next v \<in> set (getAnnualizedRate env instanceId api (vTokenList ! i)))) \<and>
         (vTokenList \<noteq> [] \<and> (\<forall>i<length vTokenList. i \<in> set (batch_order env)) \<longrightarrow>
            ((\<forall>i<length vTokenList.
                 (\<exists>v rest. getPoolInfo instanceId api (vTokenList ! i) None = Next v # rest) \<and>
                 (\<forall>e. Error e \<notin> set (getPoolInfo instanceId api (vTokenList ! i) None))) \<longrightarrow>
               (\<exists>vs. Next vs \<in> set (getAllVtokenConvertInfo env instanceId api vTokenArray))) \<and>
            ((\<forall>i<length vTokenList.
                 (\<exists>v rest. getConvertPriceInfo instanceId api (vTokenList ! i) None = Next v # rest) \<and>
                 (\<forall>e. Error e \<notin> set (getConvertPriceInfo instanceId api (vTokenList ! i) None))) \<longrightarrow>
               (\<exists>vs. Next vs \<in> set (getAllConvertPriceInfo env instanceId api vTokenArray))) \<and>
            ((\<forall>i<length vTokenList.
                 (\<exists>v rest. getAnnualizedRate env instanceId api (vTokenList ! i) = Next v # rest) \<and>
                 (\<forall>e. Error e \<notin> set (getAnnualizedRate env instanceId api (vTokenList ! i)))) \<longrightarrow>
               (\<exists>vs. Next vs \<in> set (getAllAnnualizedRate env instanceId api vTokenArray))))"
proof -
  note eqs = getAll_eqs [OF assms, of instanceId api]
  have pools: "\<forall>vs. Next vs \<in> set (getAllVtokenConvertInfo env instanceId api vTokenArray) \<longrightarrow>
            length vs = length vTokenList \<and>
            (\<forall>i<length vTokenList. \<exists>v. vs ! i = Some v \<and>
               Next v \<in> set (getPoolInfo instanceId api (vTokenList ! i) None))"
    unfolding eqs using batch_sound by blast
  have prices: "\<forall>vs. Next vs \<in> set (getAllConvertPriceInfo env instanceId api vTokenArray) \<longrightarrow>
            length vs = length vTokenList \<and>
            (\<forall>i<length vTokenList. \<exists>v. vs ! i = Some v \<and>
               Next v \<in> set (getConvertPriceInfo instanceId api (vTokenList ! i) None))"
    unfolding eqs using batch_sound by blast
  have rates: "\<forall>vs. Next vs \<in> set (getAllAnnualizedRate env instanceId api vTokenArray) \<longrightarrow>
            length vs = length vTokenList \<and>
            (\<forall>i<length vTokenList. \<exists>v. vs ! i = Some v \<and>
               Next v \<in> set (getAnnualizedRate env instanceId api (vTokenList ! i)))"
    unfolding eqs using batch_sound by blast
  have emits: "vTokenList \<noteq> [] \<and> (\<forall>i<length vTokenList. i \<in> set (batch_order env)) \<longrightarrow>
            ((\<forall>i<length vTokenList.
                 (\<exists>v rest. getPoolInfo instanceId api (vTokenList ! i) None = Next v # rest) \<and>
                 (\<forall>e. Error e \<notin> set (getPoolInfo instanceId api (vTokenList ! i) None))) \<longrightarrow>
               (\<exists>vs. Next vs \<in> set (getAllVtokenConvertInfo env instanceId api vTokenArray))) \<and>
            ((\<forall>i<length vTokenList.
                 (\<exists>v rest. getConvertPriceInfo instanceId api (vTokenList ! i) None = Next v # rest) \<and>
                 (\<forall>e. Error e \<notin> set (getConvertPriceInfo instanceId api (vTokenList ! i) None))) \<longrightarrow>
               (\<exists>vs. Next vs \<in> set (getAllConvertPriceInfo env instanceId api vTokenArray))) \<and>
            ((\<forall>i<length vTokenList.
                 (\<exists>v rest. getAnnualizedRate env instanceId api (vTokenList ! i) = Next v # rest) \<and>
                 (\<forall>e. Error e \<notin> set (getAnnualizedRate env instanceId api (vTokenList ! i)))) \<longrightarrow>
               (\<exists>vs. Next vs \<in> set (getAllAnnualizedRate env instanceId api vTokenArray)))"
  proof (intro impI conjI)
    assume "vTokenList \<noteq> [] \<and> (\<forall>i<length vTokenList. i \<in> set (batch_order env))"
      and "\<forall>i<length vTokenList.
                 (\<exists>v rest. getPoolInfo instanceId api (vTokenList ! i) None = Next v # rest) \<and>
                 (\<forall>e. Error e \<notin> set (getPoolInfo instanceId api (vTokenList ! i) None))"
    then show "\<exists>vs. Next vs \<in> set (getAllVtokenConvertInfo env instanceId api vTokenArray)"
      unfolding eqs by (intro batch_responds) simp_all
  next
    assume "vTokenList \<noteq> [] \<and> (\<forall>i<length vTokenList. i \<in> set (batch_order env))"
      and "\<forall>i<length vTokenList.
                 (\<exists>v rest. getConvertPriceInfo instanceId api (vTokenList ! i) None = Next v # rest) \<and>
                 (\<forall>e. Error e \<notin> set (getConvertPriceInfo instanceId api (vTokenList ! i) None))"
    then show "\<exists>vs. Next vs \<in> set (getAllConvertPriceInfo env instanceId api vTokenArray)"
      unfolding eqs by (intro batch_responds) simp_all
  next
    assume "vTokenList \<noteq> [] \<and> (\<forall>i<length vTokenList. i \<in> set (batch_order env))"
      and "\<forall>i<length vTokenList.
                 (\<exists>v rest. getAnnualizedRate env instanceId api (vTokenList ! i) = Next v # rest) \<and>
                 (\<forall>e. Error e \<notin> set (getAnnualizedRate env instanceId api (vTokenList ! i)))"
    then show "\<exists>vs. Next vs \<in> set (getAllAnnualizedRate env instanceId api vTokenArray)"
      unfolding eqs by (intro batch_responds) simp_all
  qed
  from pools prices rates emits show ?thesis by (intro conjI)
qed

theorem batch_lists_follow_the_tokens_witness:
  "\<exists>vs. Next vs \<in> set (getAllVtokenConvertInfo (exampleEnv [] [0, 1]) ''i''
            (exampleApi (\<lambda>t. if t = ''A'' then (1000, 100) else (6, 2)) (\<lambda>_ _. (0, 0)))
            (Some [''B'', ''A''])) \<and>
        length vs = length [''B'', ''A''] \<and>
        vs ! 0 = Some \<lparr>current_reward = 0, pending_reward = 0, token_pool = 6, vtoken_pool = 2\<rparr> \<and>
        vs ! 1 = Some \<lparr>current_reward = 0, pending_reward = 0, token_pool = 1000, vtoken_pool = 100\<rparr>"
proof -
  let ?api = "exampleApi (\<lambda>t. if t = ''A'' then (1000, 100) else (6, 2)) (\<lambda>_ _. (0, 0))"
  let ?env = "exampleEnv [] [0, 1]"
  let ?toks = "[''B'', ''A'']"
  have tokens: "?toks = (case Some ?toks of None \<Rightarrow> bifrostVtokenList ?env | Some a \<Rightarrow> a)"
    by simp
  note inst = batch_lists_follow_the_tokens [OF tokens, of "''i''" ?api]
  have order: "?toks \<noteq> [] \<and> (\<forall>i<length ?toks. i \<in> set (batch_order ?env))"
    by (auto simp: exampleEnv_def less_Suc_eq)
  have first: "\<forall>i<length ?toks.
      (\<exists>v rest. getPoolInfo ''i'' ?api (?toks ! i) None = Next v # rest) \<and>
      (\<forall>e. Error e \<notin> set (getPoolInfo ''i'' ?api (?toks ! i) None))"
    by (simp add: getPoolInfo_example)
  from inst order first
  obtain vs where vs: "Next vs \<in> set (getAllVtokenConvertInfo ?env ''i'' ?api (Some ?toks))"
    by blast
  with inst have len: "length vs = length ?toks"
    and elems: "\<forall>i<length ?toks. \<exists>v. vs ! i = Some v \<and> Next v \<in> set (getPoolInfo ''i'' ?api (?toks ! i) None)"
    by blast+
  have "vs ! 0 = Some \<lparr>current_reward = 0, pending_reward = 0, token_pool = 6, vtoken_pool = 2\<rparr>"
    using elems [rule_format, of 0] by (auto simp: getPoolInfo_example)
  moreover have "vs ! 1 = Some \<lparr>current_reward = 0, pending_reward = 0, token_pool = 1000, vtoken_pool = 100\<rparr>"
    using elems [rule_format, of 1] by (auto simp: getPoolInfo_example)
  ultimately show ?thesis
    using vs len by blast
qed

text \<open>The batch of the tokens \<open>B\<close> and \<open>A\<close>, computed.\<close>

lemma batch_example:
  "getAllVtokenConvertInfo (exampleEnv [] [0, 1]) ''i''
     (exampleApi (\<lambda>t. if t = ''A'' then (1000, 100) else (6, 2)) (\<lambda>_ _. (0, 0)))
     (Some [''B'', ''A'']) =
   [Next [Some \<lparr>current_reward = 0, pending_reward = 0, token_pool = 6, vtoken_pool = 2\<rparr>,
          Some \<lparr>current_reward = 0, pending_reward = 0, token_pool = 1000, vtoken_pool = 100\<rparr>]]"
  by (simp add: getAllVtokenConvertInfo_def memo_def exampleEnv_def getPoolInfo_example
      combineLatest_def Let_def)

text \<open>
  Claim C7.  A batch function called without a token list delivers what it delivers when
  called with \<open>bifrostVtokenList\<close>.
\<close>

theorem omitted_list_is_the_default:
  "getAllVtokenConvertInfo env instanceId api None =
     getAllVtokenConvertInfo env instanceId api (Some (bifrostVtokenList env)) \<and>
   getAllConvertPriceInfo env instanceId api None =
     getAllConvertPriceInfo env instanceId api (Some (bifrostVtokenList env)) \<and>
   getAllAnnualizedRate env instanceId api None =
     getAllAnnualizedRate env instanceId api (Some (bifrostVtokenList env))"
  by (simp add: getAllVtokenConvertInfo_def getAllConvertPriceInfo_def getAllAnnualizedRate_def
      memo_def)

theorem omitted_list_is_the_default_witness:
  "getAllConvertPriceInfo (exampleEnv [] [0, 1, 2]) ''i''
     (exampleApi (\<lambda>_. (1000, 100)) (\<lambda>_ _. (0, 0))) None =
   getAllConvertPriceInfo (exampleEnv [] [0, 1, 2]) ''i''
     (exampleApi (\<lambda>_. (1000, 100)) (\<lambda>_ _. (0, 0))) (Some [''vDOT'', ''vKSM'', ''vEOS''])"
  using omitted_list_is_the_default [of "exampleEnv [] [0, 1, 2]" "''i''"
      "exampleApi (\<lambda>_. (1000, 100)) (\<lambda>_ _. (0, 0))"]
  by (simp add: exampleEnv_def)

text \<open>
  Claim C9.  Called with the empty token list, each batch function completes without
  emitting anything: the empty list is never emitted.
\<close>

theorem empty_list_completes_silently:
  "getAllVtokenConvertInfo env instanceId api (Some []) = [Complete] \<and>
   getAllConvertPriceInfo env instanceId api (Some []) = [Complete] \<and>
   getAllAnnualizedRate env instanceId api (Some []) = [Complete]"
  by (simp add: getAllVtokenConvertInfo_def getAllConvertPriceInfo_def getAllAnnualizedRate_def
      memo_def combineLatest_def)

theorem empty_list_completes_silently_witness:
  "getAllVtokenConvertInfo (exampleEnv [] [0, 1]) ''i''
     (exampleApi (\<lambda>_. (1000, 100)) (\<lambda>_ _. (0, 0))) (Some []) = [Complete]"
  using empty_list_completes_silently by (rule conjunct1)

subsection \<open>The operator \<open>mergeMap\<close>\<close>

lemma mm_run_emits:
  assumes "Next v \<in> set (mm_run sch project st)"
    and "\<forall>inner\<in>set (mm_inner st). set inner \<subseteq> T"
    and "\<forall>x k. Next x \<in> set (mm_source st) \<longrightarrow> set (project x k) \<subseteq> T"
  shows "Next v \<in> T"
  using assms
proof (induction sch arbitrary: st)
  case Nil
  then show ?case by simp
next
  case (Cons j sch)
  show ?case
  proof (cases j)
    case 0
    show ?thesis
    proof (cases "mm_source st")
      case Nil
      then show ?thesis using Cons 0 by simp
    next
      case (Cons a rest)
      note src = this
      show ?thesis
      proof (cases a)
        case (Next x)
        let ?st' = "st\<lparr>mm_index := mm_index st + 1, mm_active := mm_active st + 1,
                        mm_source := rest, mm_inner := mm_inner st @ [project x (mm_index st)]\<rparr>"
        have "Next v \<in> set (mm_run sch project ?st')"
          using Cons.prems(1) 0 src Next by simp
        moreover have "\<forall>inner\<in>set (mm_inner ?st'). set inner \<subseteq> T"
          using Cons.prems(2,3) src Next by auto
        moreover have "\<forall>y k. Next y \<in> set (mm_source ?st') \<longrightarrow> set (project y k) \<subseteq> T"
          using Cons.prems(3) src by simp
        ultimately show ?thesis by (rule Cons.IH)
      next
        case (Error e)
        then show ?thesis using Cons.prems(1) 0 src by simp
      next
        case Complete
        let ?st' = "st\<lparr>mm_hasCompleted := True, mm_source := []\<rparr>"
        have "Next v \<in> set (mm_run sch project ?st')"
          using Cons.prems(1) 0 src Complete by (simp split: if_splits)
        moreover have "\<forall>inner\<in>set (mm_inner ?st'). set inner \<subseteq> T"
          using Cons.prems(2) by simp
        moreover have "\<forall>y k. Next y \<in> set (mm_source ?st') \<longrightarrow> set (project y k) \<subseteq> T"
          by simp
        ultimately show ?thesis by (rule Cons.IH)
      qed
    qed
  next
    case (Suc k)
    show ?thesis
    proof (cases "length (mm_inner st) \<le> k")
      case True
      then show ?thesis using Cons Suc by simp
    next
      case False
      then have k: "k < length (mm_inner st)" by simp
      then have sub: "set (mm_inner st ! k) \<subseteq> T"
        using Cons.prems(2) by simp
      show ?thesis
      proof (cases "mm_inner st ! k")
        case Nil
        then show ?thesis using Cons Suc k by simp
      next
        case (Cons a rest)
        note inner = this
        have upd: "\<forall>inner\<in>set ((mm_inner st)[k := r]). set inner \<subseteq> T" if "set r \<subseteq> T" for r
          using Cons.prems(2) that by (metis insertE set_update_subset_insert subsetD)
        show ?thesis
        proof (cases a)
          case (Next w)
          let ?st' = "st\<lparr>mm_inner := (mm_inner st)[k := rest]\<rparr>"
          have "Next v = Next w \<or> Next v \<in> set (mm_run sch project ?st')"
            using Cons.prems(1) Suc k inner Next by simp
          then show ?thesis
          proof
            assume "Next v = Next w"
            then show ?thesis using sub inner Next by simp
          next
            assume run: "Next v \<in> set (mm_run sch project ?st')"
            have "set rest \<subseteq> T" using sub inner by simp
            then have "\<forall>inner\<in>set (mm_inner ?st'). set inner \<subseteq> T"
              using upd by simp
            moreover have "\<forall>y k. Next y \<in> set (mm_source ?st') \<longrightarrow> set (project y k) \<subseteq> T"
              using Cons.prems(3) by simp
            ultimately show ?thesis using Cons.IH [OF run] by blast
          qed
        next
          case (Error e)
          then show ?thesis using Cons.prems(1) Suc k inner by simp
        next
          case Complete
          let ?st' = "st\<lparr>mm_active := mm_active st - 1, mm_inner := (mm_inner st)[k := []]\<rparr>"
          have run: "Next v \<in> set (mm_run sch project ?st')"
            using Cons.prems(1) Suc k inner Complete by (simp split: if_splits)
          have "\<forall>inner\<in>set (mm_inner ?st'). set inner \<subseteq> T"
            using upd [of "[]"] by simp
          moreover have "\<forall>y k. Next y \<in> set (mm_source ?st') \<longrightarrow> set (project y k) \<subseteq> T"
            using Cons.prems(3) by simp
          ultimately show ?thesis using Cons.IH [OF run] by blast
        qed
      qed
    qed
  qed
qed

lemma mergeMap_emits:
  assumes "Next v \<in> set (mergeMap sch project source)"
  shows "\<exists>x k. Next x \<in> set source \<and> Next v \<in> set (project x k)"
proof -
  let ?T = "{n. \<exists>x k. Next x \<in> set source \<and> n \<in> set (project x k)}"
  have "Next v \<in> ?T"
    by (rule mm_run_emits [OF assms [unfolded mergeMap_def]]) auto
  then show ?thesis by simp
qed

text \<open>
  What an inner observable delivers first is forwarded, when nothing fails and the order
  lets the outer observable deliver the value it is made from and then lets it deliver.
\<close>

lemma pending_append: "pending (obs @ [ob]) \<le> Suc (pending obs)"
  by (simp add: pending_def)

lemma mm_inv_outer_next:
  assumes "mm_inv project st" and "mm_source st = Next x # rest"
  shows "mm_inv project
           (st\<lparr>mm_index := mm_index st + 1, mm_active := mm_active st + 1,
                mm_source := rest, mm_inner := mm_inner st @ [project x (mm_index st)]\<rparr>)"
proof -
  have "int (pending (mm_inner st @ [project x (mm_index st)])) \<le> mm_active st + 1"
    using pending_append [of "mm_inner st" "project x (mm_index st)"] assms(1)
    by (simp add: mm_inv_def)
  moreover have "\<not> mm_hasCompleted st"
    using assms by (auto simp: mm_inv_def)
  moreover have "\<forall>e. Error e \<notin> set (project x (mm_index st))"
    using assms by (simp add: mm_inv_def)
  ultimately show ?thesis
    using assms by (auto simp: mm_inv_def)
qed

lemma mm_inv_outer_complete:
  assumes "mm_inv project st"
  shows "mm_inv project (st\<lparr>mm_hasCompleted := True, mm_source := []\<rparr>)"
  using assms by (simp add: mm_inv_def)

lemma mm_inv_inner_next:
  assumes "mm_inv project st" and "k < length (mm_inner st)" and "mm_inner st ! k = n # rest"
  shows "mm_inv project (st\<lparr>mm_inner := (mm_inner st)[k := rest]\<rparr>)"
proof -
  have "int (pending ((mm_inner st)[k := rest])) \<le> mm_active st"
    using pending_update_le [of k "mm_inner st" rest] assms by (simp add: mm_inv_def)
  moreover have "\<forall>e. Error e \<notin> set rest"
    using assms by (metis list.set_intros(2) mm_inv_def nth_mem)
  then have "\<forall>inner\<in>set ((mm_inner st)[k := rest]). \<forall>e. Error e \<notin> set inner"
    using assms(1) by (intro set_update_all) (simp_all add: mm_inv_def)
  ultimately show ?thesis
    using assms(1) by (simp add: mm_inv_def)
qed

lemma mm_inv_inner_complete:
  assumes "mm_inv project st" and "k < length (mm_inner st)" and "mm_inner st ! k \<noteq> []"
  shows "mm_inv project (st\<lparr>mm_active := mm_active st - 1, mm_inner := (mm_inner st)[k := []]\<rparr>)"
proof -
  have "int (pending ((mm_inner st)[k := []])) \<le> mm_active st - 1"
    using pending_update_nil [of k "mm_inner st"] assms by (auto simp: mm_inv_def)
  moreover have "\<forall>inner\<in>set ((mm_inner st)[k := []]). \<forall>e. Error e \<notin> set inner"
    using assms(1) by (intro set_update_all) (simp_all add: mm_inv_def)
  ultimately show ?thesis
    using assms(1) by (simp add: mm_inv_def)
qed

lemma mm_run_forwards:
  assumes "mm_inv project st" and "k < length (mm_inner st)"
    and "mm_inner st ! k = Next w # ns" and "Suc k \<in> set sch"
  shows "Next w \<in> set (mm_run sch project st)"
  using assms
proof (induction sch arbitrary: st)
  case Nil
  then show ?case by simp
next
  case (Cons j sch)
  have active: "0 < mm_active st"
    using pending_pos [of k "mm_inner st"] Cons.prems(1-3) by (simp add: mm_inv_def)
  show ?case
  proof (cases "j = Suc k")
    case True
    then show ?thesis using Cons.prems(2,3) by simp
  next
    case other: False
    then have later: "Suc k \<in> set sch"
      using Cons.prems(4) by simp
    show ?thesis
    proof (cases j)
      case 0
      show ?thesis
      proof (cases "mm_source st")
        case Nil
        then show ?thesis using Cons.IH [OF Cons.prems(1-3) later] 0 by simp
      next
        case (Cons a rest)
        note src = this
        show ?thesis
        proof (cases a)
          case (Next x)
          let ?st' = "st\<lparr>mm_index := mm_index st + 1, mm_active := mm_active st + 1,
                          mm_source := rest, mm_inner := mm_inner st @ [project x (mm_index st)]\<rparr>"
          have "mm_inv project ?st'"
            using mm_inv_outer_next [OF Cons.prems(1)] src Next by simp
          moreover have "k < length (mm_inner ?st')"
            using Cons.prems(2) by simp
          moreover have "mm_inner ?st' ! k = Next w # ns"
            using Cons.prems(2,3) by (simp add: nth_append)
          ultimately have "Next w \<in> set (mm_run sch project ?st')"
            using later by (rule Cons.IH)
          then show ?thesis using 0 src Next by simp
        next
          case (Error e)
          then show ?thesis using Cons.prems(1) src by (auto simp: mm_inv_def)
        next
          case Complete
          let ?st' = "st\<lparr>mm_hasCompleted := True, mm_source := []\<rparr>"
          have "mm_inv project ?st'"
            by (rule mm_inv_outer_complete [OF Cons.prems(1)])
          moreover have "k < length (mm_inner ?st')" "mm_inner ?st' ! k = Next w # ns"
            using Cons.prems(2,3) by simp_all
          ultimately have "Next w \<in> set (mm_run sch project ?st')"
            using later by (rule Cons.IH)
          then show ?thesis using 0 src Complete active by simp
        qed
      qed
    next
      case (Suc k')
      then have neq: "k' \<noteq> k" using other by simp
      show ?thesis
      proof (cases "length (mm_inner st) \<le> k'")
        case True
        then show ?thesis using Cons.IH [OF Cons.prems(1-3) later] Suc by simp
      next
        case False
        then have k': "k' < length (mm_inner st)" by simp
        show ?thesis
        proof (cases "mm_inner st ! k'")
          case Nil
          then show ?thesis using Cons.IH [OF Cons.prems(1-3) later] Suc k' by simp
        next
          case (Cons a rest)
          note inner = this
          show ?thesis
          proof (cases a)
            case (Next v)
            let ?st' = "st\<lparr>mm_inner := (mm_inner st)[k' := rest]\<rparr>"
            have "mm_inv project ?st'"
              by (rule mm_inv_inner_next [OF Cons.prems(1) k' inner])
            moreover have "k < length (mm_inner ?st')" "mm_inner ?st' ! k = Next w # ns"
              using Cons.prems(2,3) neq by simp_all
            ultimately have "Next w \<in> set (mm_run sch project ?st')"
              using later by (rule Cons.IH)
            then show ?thesis using Suc k' inner Next by simp
          next
            case (Error e)
            then show ?thesis
              using Cons.prems(1) k' inner by (metis list.set_intros(1) mm_inv_def nth_mem)
          next
            case Complete
            have "2 \<le> pending (mm_inner st)"
              using pending_two [of k' "mm_inner st" k] k' Cons.prems(2,3) neq inner by simp
            then have two: "2 \<le> mm_active st"
              using Cons.prems(1) by (simp add: mm_inv_def)
            let ?st' = "st\<lparr>mm_active := mm_active st - 1, mm_inner := (mm_inner st)[k' := []]\<rparr>"
            have "mm_inv project ?st'"
              using mm_inv_inner_complete [OF Cons.prems(1) k'] inner by simp
            moreover have "k < length (mm_inner ?st')" "mm_inner ?st' ! k = Next w # ns"
              using Cons.prems(2,3) neq by simp_all
            ultimately have "Next w \<in> set (mm_run sch project ?st')"
              using later by (rule Cons.IH)
            then show ?thesis using Suc k' inner Complete two by simp
          qed
        qed
      qed
    qed
  qed
qed

lemma mm_run_reaches:
  assumes "mm_inv project st"
    and "mm_source st = map Next pre @ Next x # rest"
    and "project x (mm_index st + length pre) = Next w # ns"
    and "Suc (length pre) \<le> count_list s1 0"
    and "Suc (mm_index st + length pre) \<in> set s2"
  shows "Next w \<in> set (mm_run (s1 @ s2) project st)"
  using assms
proof (induction s1 arbitrary: st pre)
  case Nil
  then show ?case by simp
next
  case (Cons j s1)
  have open_: "\<not> mm_hasCompleted st"
    using Cons.prems(1,2) by (auto simp: mm_inv_def)
  have idx: "mm_index st = length (mm_inner st)"
    using Cons.prems(1) by (simp add: mm_inv_def)
  show ?case
  proof (cases j)
    case 0
    show ?thesis
    proof (cases pre)
      case Nil
      let ?st' = "st\<lparr>mm_index := mm_index st + 1, mm_active := mm_active st + 1,
                      mm_source := rest, mm_inner := mm_inner st @ [project x (mm_index st)]\<rparr>"
      have src: "mm_source st = Next x # rest"
        using Cons.prems(2) Nil by simp
      have "mm_inv project ?st'"
        by (rule mm_inv_outer_next [OF Cons.prems(1) src])
      moreover have "mm_index st < length (mm_inner ?st')"
        using idx by simp
      moreover have "mm_inner ?st' ! mm_index st = Next w # ns"
        using idx Cons.prems(3) Nil by simp
      moreover have "Suc (mm_index st) \<in> set (s1 @ s2)"
        using Cons.prems(5) Nil by simp
      ultimately have "Next w \<in> set (mm_run (s1 @ s2) project ?st')"
        by (rule mm_run_forwards)
      then show ?thesis using 0 src by simp
    next
      case (Cons y pre')
      let ?st' = "st\<lparr>mm_index := mm_index st + 1, mm_active := mm_active st + 1,
                      mm_source := map Next pre' @ Next x # rest,
                      mm_inner := mm_inner st @ [project y (mm_index st)]\<rparr>"
      have src: "mm_source st = Next y # (map Next pre' @ Next x # rest)"
        using Cons.prems(2) Cons by simp
      have "mm_inv project ?st'"
        by (rule mm_inv_outer_next [OF Cons.prems(1) src])
      moreover have "mm_source ?st' = map Next pre' @ Next x # rest"
        by simp
      moreover have "project x (mm_index ?st' + length pre') = Next w # ns"
        using Cons.prems(3) Cons by simp
      moreover have "Suc (length pre') \<le> count_list s1 0"
        using Cons.prems(4) Cons 0 by simp
      moreover have "Suc (mm_index ?st' + length pre') \<in> set s2"
        using Cons.prems(5) Cons by simp
      ultimately have "Next w \<in> set (mm_run (s1 @ s2) project ?st')"
        by (rule Cons.IH)
      then show ?thesis using 0 src by simp
    qed
  next
    case (Suc k')
    have count: "Suc (length pre) \<le> count_list s1 0"
      using Cons.prems(4) Suc by simp
    show ?thesis
    proof (cases "length (mm_inner st) \<le> k'")
      case True
      then show ?thesis
        using Cons.IH [OF Cons.prems(1-3) count Cons.prems(5)] Suc by simp
    next
      case False
      then have k': "k' < length (mm_inner st)" by simp
      show ?thesis
      proof (cases "mm_inner st ! k'")
        case Nil
        then show ?thesis
          using Cons.IH [OF Cons.prems(1-3) count Cons.prems(5)] Suc k' by simp
      next
        case (Cons a inner_rest)
        note inner = this
        show ?thesis
        proof (cases a)
          case (Next v)
          let ?st' = "st\<lparr>mm_inner := (mm_inner st)[k' := inner_rest]\<rparr>"
          have "mm_inv project ?st'"
            by (rule mm_inv_inner_next [OF Cons.prems(1) k' inner])
          moreover have "mm_source ?st' = map Next pre @ Next x # rest"
            using Cons.prems(2) by simp
          moreover have "project x (mm_index ?st' + length pre) = Next w # ns"
            using Cons.prems(3) by simp
          moreover have "Suc (mm_index ?st' + length pre) \<in> set s2"
            using Cons.prems(5) by simp
          ultimately have "Next w \<in> set (mm_run (s1 @ s2) project ?st')"
            using count by (intro Cons.IH)
          then show ?thesis using Suc k' inner Next by simp
        next
          case (Error e)
          then show ?thesis
            using Cons.prems(1) k' inner by (metis list.set_intros(1) mm_inv_def nth_mem)
        next
          case Complete
          let ?st' = "st\<lparr>mm_active := mm_active st - 1, mm_inner := (mm_inner st)[k' := []]\<rparr>"
          have "mm_inv project ?st'"
            using mm_inv_inner_complete [OF Cons.prems(1) k'] inner by simp
          moreover have "mm_source ?st' = map Next pre @ Next x # rest"
            using Cons.prems(2) by simp
          moreover have "project x (mm_index ?st' + length pre) = Next w # ns"
            using Cons.prems(3) by simp
          moreover have "Suc (mm_index ?st' + length pre) \<in> set s2"
            using Cons.prems(5) by simp
          ultimately have "Next w \<in> set (mm_run (s1 @ s2) project ?st')"
            using count by (intro Cons.IH)
          then show ?thesis using Suc k' inner Complete open_ by simp
        qed
      qed
    qed
  qed
qed

lemma mergeMap_forwards:
  assumes "source = map Next pre @ Next x # rest"
    and "project x (length pre) = Next w # ns"
    and "\<forall>e. Error e \<notin> set source"
    and "\<forall>y j e. Next y \<in> set source \<longrightarrow> Error e \<notin> set (project y j)"
    and "Suc (length pre) \<le> count_list s1 0"
    and "Suc (length pre) \<in> set s2"
  shows "Next w \<in> set (mergeMap (s1 @ s2) project source)"
proof -
  let ?st = "\<lparr>mm_index = 0, mm_active = 0, mm_hasCompleted = False,
              mm_source = source, mm_inner = []\<rparr>"
  have "mm_inv project ?st"
    using assms(3,4) by (simp add: mm_inv_def pending_def)
  moreover have "mm_source ?st = map Next pre @ Next x # rest"
    using assms(1) by simp
  moreover have "project x (mm_index ?st + length pre) = Next w # ns"
    using assms(2) by simp
  moreover have "Suc (mm_index ?st + length pre) \<in> set s2"
    using assms(6) by simp
  ultimately have "Next w \<in> set (mm_run (s1 @ s2) project ?st)"
    using assms(5) by (intro mm_run_reaches)
  then show ?thesis
    by (simp add: mergeMap_def)
qed

subsection \<open>Prices at a list of blocks\<close>

lemma getBatchConvertPrice_sound:
  assumes "Next vs \<in> set (getBatchConvertPrice env instanceId api tokenSymbol blockHashArray)"
  shows "\<exists>blockHashList. Next blockHashList \<in> set blockHashArray \<and> blockHashList \<noteq> [] \<and>
           length vs = length blockHashList \<and>
           (\<forall>i<length blockHashList. \<exists>v. vs ! i = Some v \<and>
              Next v \<in> set (getConvertPriceInfo instanceId api tokenSymbol (Some (blockHashList ! i))))"
proof -
  let ?inner = "\<lambda>blockHashList k. combineLatest (hash_combine_order env k)
      (map (\<lambda>blockHash. getConvertPriceInfo instanceId api tokenSymbol (Some blockHash)) blockHashList)"
  have "Next vs \<in> set (mergeMap (hash_merge_order env) ?inner blockHashArray)"
    using assms by (simp add: getBatchConvertPrice_def memo_def)
  from mergeMap_emits [OF this]
  obtain hs k where hs: "Next hs \<in> set blockHashArray" and vs: "Next vs \<in> set (?inner hs k)"
    by auto
  have "hs \<noteq> []"
    using vs by (auto simp: combineLatest_def)
  moreover from combineLatest_emits [OF vs]
  have "length vs = length hs"
    and "\<forall>i<length hs. \<exists>v. vs ! i = Some v \<and>
           Next v \<in> set (getConvertPriceInfo instanceId api tokenSymbol (Some (hs ! i)))"
    by simp_all
  ultimately show ?thesis using hs by blast
qed

lemma getBatchConvertPrice_responds:
  assumes src: "blockHashArray = map Next earlier @ Next blockHashList # later"
    and nonempty: "blockHashList \<noteq> []"
    and src_ok: "\<forall>e. Error e \<notin> set blockHashArray"
    and price_ok: "\<forall>hs h e. Next hs \<in> set blockHashArray \<longrightarrow> h \<in> set hs \<longrightarrow>
                     Error e \<notin> set (getConvertPriceInfo instanceId api tokenSymbol (Some h))"
    and first: "\<forall>i<length blockHashList. \<exists>v rest.
                  getConvertPriceInfo instanceId api tokenSymbol (Some (blockHashList ! i)) = Next v # rest"
    and combine: "\<forall>i<length blockHashList. i \<in> set (hash_combine_order env (length earlier))"
    and merge: "hash_merge_order env = s1 @ s2" "Suc (length earlier) \<le> count_list s1 0"
               "Suc (length earlier) \<in> set s2"
  shows "\<exists>vs. Next vs \<in> set (getBatchConvertPrice env instanceId api tokenSymbol blockHashArray) \<and>
           length vs = length blockHashList \<and>
           (\<forall>i<length blockHashList. \<exists>v. vs ! i = Some v \<and>
              Next v \<in> set (getConvertPriceInfo instanceId api tokenSymbol (Some (blockHashList ! i))))"
proof -
  let ?price = "\<lambda>blockHash. getConvertPriceInfo instanceId api tokenSymbol (Some blockHash)"
  let ?inner = "\<lambda>blockHashList k. combineLatest (hash_combine_order env k) (map ?price blockHashList)"
  let ?X = "?inner blockHashList (length earlier)"
  have "\<exists>vs. Next vs \<in> set ?X"
  proof (rule combineLatest_responds)
    show "map ?price blockHashList \<noteq> []" using nonempty by simp
    show "\<forall>i<length (map ?price blockHashList). \<exists>v rest. map ?price blockHashList ! i = Next v # rest"
      using first by simp
    have "Next blockHashList \<in> set blockHashArray"
      using src by simp
    then show "\<forall>i<length (map ?price blockHashList). \<forall>e. Error e \<notin> set (map ?price blockHashList ! i)"
      using price_ok by simp
    show "\<forall>i<length (map ?price blockHashList). i \<in> set (hash_combine_order env (length earlier))"
      using combine by simp
  qed
  then obtain w ns where X: "?X = Next w # ns"
    using closed_first [OF closed_combineLatest] by blast
  have inner_ok: "\<forall>y j e. Next y \<in> set blockHashArray \<longrightarrow> Error e \<notin> set (?inner y j)"
    using price_ok by (auto intro!: combineLatest_no_error)
  have "Next w \<in> set (mergeMap (s1 @ s2) ?inner blockHashArray)"
    using src X src_ok inner_ok merge(2,3) by (rule mergeMap_forwards)
  then have out: "Next w \<in> set (getBatchConvertPrice env instanceId api tokenSymbol blockHashArray)"
    by (simp add: getBatchConvertPrice_def memo_def merge(1))
  have "Next w \<in> set ?X" using X by simp
  from combineLatest_emits [OF this]
  have "length w = length blockHashList"
    and "\<forall>i<length blockHashList. \<exists>v. w ! i = Some v \<and> Next v \<in> set (?price (blockHashList ! i))"
    by simp_all
  then show ?thesis using out by blast
qed

text \<open>
  Claim C8, as amended.  Every list that \<open>getBatchConvertPrice\<close> emits belongs to one of
  the hash lists that the input stream emitted, a non-empty one: it has the length of
  that hash list, and its \<open>i\<close>-th element is a conversion price of the token at the
  \<open>i\<close>-th hash.  Conversely a non-empty hash list of the input stream yields such a list
  when no stream fails, the price stream of each of its hashes delivers a price first,
  and the orders let the input stream deliver the list, each of its price streams
  deliver, and the combination of the list deliver after that.
\<close>

theorem batch_prices_follow_the_hashes:
  "(\<forall>vs. Next vs \<in> set (getBatchConvertPrice env instanceId api tokenSymbol blockHashArray) \<longrightarrow>
      (\<exists>blockHashList. Next blockHashList \<in> set blockHashArray \<and> blockHashList \<noteq> [] \<and>
         length vs = length blockHashList \<and>
         (\<forall>i<length blockHashList. \<exists>v. vs ! i = Some v \<and>
            Next v \<in> set (getConvertPriceInfo instanceId api tokenSymbol
                            (Some (blockHashList ! i)))))) \<and>
   (blockHashArray = map Next earlier @ Next blockHashList # later \<and> blockHashList \<noteq> [] \<and>
    (\<forall>e. Error e \<notin> set blockHashArray) \<and>
    (\<forall>hs h e. Next hs \<in> set blockHashArray \<longrightarrow> h \<in> set hs \<longrightarrow>
        Error e \<notin> set (getConvertPriceInfo instanceId api tokenSymbol (Some h))) \<and>
    (\<forall>i<length blockHashList. \<exists>v rest.
        getConvertPriceInfo instanceId api tokenSymbol (Some (blockHashList ! i)) = Next v # rest) \<and>
    (\<forall>i<length blockHashList. i \<in> set (hash_combine_order env (length earlier))) \<and>
    hash_merge_order env = s1 @ s2 \<and> Suc (length earlier) \<le> count_list s1 0 \<and>
    Suc (length earlier) \<in> set s2 \<longrightarrow>
      (\<exists>vs. Next vs \<in> set (getBatchConvertPrice env instanceId api tokenSymbol blockHashArray) \<and>
         length vs = length blockHashList \<and>
         (\<forall>i<length blockHashList. \<exists>v. vs ! i = Some v \<and>
            Next v \<in> set (getConvertPriceInfo instanceId api tokenSymbol
                            (Some (blockHashList ! i))))))"
proof (intro conjI allI impI)
  fix vs
  assume "Next vs \<in> set (getBatchConvertPrice env instanceId api tokenSymbol blockHashArray)"
  then show "\<exists>blockHashList. Next blockHashList \<in> set blockHashArray \<and> blockHashList \<noteq> [] \<and>
         length vs = length blockHashList \<and>
         (\<forall>i<length blockHashList. \<exists>v. vs ! i = Some v \<and>
            Next v \<in> set (getConvertPriceInfo instanceId api tokenSymbol
                            (Some (blockHashList ! i))))"
    by (rule getBatchConvertPrice_sound)
next
  assume "blockHashArray = map Next earlier @ Next blockHashList # later \<and> blockHashList \<noteq> [] \<and>
    (\<forall>e. Error e \<notin> set blockHashArray) \<and>
    (\<forall>hs h e. Next hs \<in> set blockHashArray \<longrightarrow> h \<in> set hs \<longrightarrow>
        Error e \<notin> set (getConvertPriceInfo instanceId api tokenSymbol (Some h))) \<and>
    (\<forall>i<length blockHashList. \<exists>v rest.
        getConvertPriceInfo instanceId api tokenSymbol (Some (blockHashList ! i)) = Next v # rest) \<and>
    (\<forall>i<length blockHashList. i \<in> set (hash_combine_order env (length earlier))) \<and>
    hash_merge_order env = s1 @ s2 \<and> Suc (length earlier) \<le> count_list s1 0 \<and>
    Suc (length earlier) \<in> set s2"
  then show "\<exists>vs. Next vs \<in> set (getBatchConvertPrice env instanceId api tokenSymbol blockHashArray) \<and>
         length vs = length blockHashList \<and>
         (\<forall>i<length blockHashList. \<exists>v. vs ! i = Some v \<and>
            Next v \<in> set (getConvertPriceInfo instanceId api tokenSymbol
                            (Some (blockHashList ! i))))"
    using getBatchConvertPrice_responds [of blockHashArray earlier blockHashList later
        instanceId api tokenSymbol env s1 s2]
    by blast
qed

lemma price_example_at:
  "\<bar>fst (past h tokenSymbol)\<bar> < 2 ^ 53 \<Longrightarrow> \<bar>snd (past h tokenSymbol)\<bar> < 2 ^ 53 \<Longrightarrow>
   getConvertPriceInfo instanceId (exampleApi now past) tokenSymbol (Some h) =
     [Next (if snd (past h tokenSymbol) \<noteq> 0
            then PBN (fst (past h tokenSymbol) sdiv snd (past h tokenSymbol))
            else PNum (Fin 0)),
      Complete]"
  by (simp add: getConvertPriceInfo_eq getPoolInfo_example convertPrice_in_range)

theorem batch_prices_follow_the_hashes_witness:
  "\<exists>vs. Next vs \<in> set (getBatchConvertPrice (exampleEnv [0, 1, 0, 2] [0, 1]) ''i''
            (exampleApi (\<lambda>_. (0, 0))
               (\<lambda>h _. if h = ''h1'' then (10, 1) else if h = ''h2'' then (20, 1) else (30, 1)))
            ''vDOT'' [Next [''h1'', ''h2''], Next [''h3'']]) \<and>
        length vs = length [''h3''] \<and>
        (\<forall>i<length [''h3'']. \<exists>v. vs ! i = Some v \<and>
           Next v \<in> set (getConvertPriceInfo ''i''
             (exampleApi (\<lambda>_. (0, 0))
                (\<lambda>h _. if h = ''h1'' then (10, 1) else if h = ''h2'' then (20, 1) else (30, 1)))
             ''vDOT'' (Some ([''h3''] ! i))))"
proof -
  let ?past = "\<lambda>h (_ :: vToken). if h = ''h1'' then (10, 1) else if h = ''h2'' then (20, 1) else (30 :: int, 1 :: int)"
  let ?api = "exampleApi (\<lambda>_. (0, 0)) ?past"
  let ?env = "exampleEnv [0, 1, 0, 2] [0, 1]"
  have price: "getConvertPriceInfo ''i'' ?api ''vDOT'' (Some h) =
      [Next (PBN (if h = ''h1'' then 10 else if h = ''h2'' then 20 else 30)), Complete]" for h
    by (simp add: price_example_at)
  have "[Next [''h1'', ''h2''], Next [''h3'']] = map Next [[''h1'', ''h2'']] @ Next [''h3''] # [] \<and>
        [''h3''] \<noteq> [] \<and>
        (\<forall>e. Error e \<notin> set [Next [''h1'', ''h2''], Next [''h3'']]) \<and>
        (\<forall>hs h e. Next hs \<in> set [Next [''h1'', ''h2''], Next [''h3'']] \<longrightarrow> h \<in> set hs \<longrightarrow>
            Error e \<notin> set (getConvertPriceInfo ''i'' ?api ''vDOT'' (Some h))) \<and>
        (\<forall>i<length [''h3'']. \<exists>v rest.
            getConvertPriceInfo ''i'' ?api ''vDOT'' (Some ([''h3''] ! i)) = Next v # rest) \<and>
        (\<forall>i<length [''h3'']. i \<in> set (hash_combine_order ?env (length [[''h1'', ''h2'']]))) \<and>
        hash_merge_order ?env = [0, 1, 0] @ [2] \<and>
        Suc (length [[''h1'', ''h2'']]) \<le> count_list [0, 1, 0] 0 \<and>
        Suc (length [[''h1'', ''h2'']]) \<in> set [2]"
    by (simp add: price exampleEnv_def)
  with batch_prices_follow_the_hashes [where env = ?env and instanceId = "''i''" and api = ?api
      and tokenSymbol = "''vDOT''" and blockHashArray = "[Next [''h1'', ''h2''], Next [''h3'']]"
      and earlier = "[[''h1'', ''h2'']]" and blockHashList = "[''h3'']" and later = "[]"
      and ?s1.0 = "[0, 1, 0]" and ?s2.0 = "[2]"]
  show ?thesis by blast
qed

text \<open>
  The scenario of the spec: the hash lists \<open>[h1, h2]\<close> and \<open>[h3]\<close> give a list of two prices
  and a list of one price.  Which comes first depends on the arrival of the prices.
\<close>

lemma batch_price_example:
  "getBatchConvertPrice (exampleEnv [0, 1, 0, 2] [0, 1]) ''i''
     (exampleApi (\<lambda>_. (0, 0))
        (\<lambda>h _. if h = ''h1'' then (10, 1) else if h = ''h2'' then (20, 1) else (30, 1)))
     ''vDOT'' [Next [''h1'', ''h2''], Next [''h3'']] =
   [Next [Some (PBN 10), Some (PBN 20)], Next [Some (PBN 30)]]"
  by code_simp

lemma batch_price_example_late:
  "getBatchConvertPrice (exampleEnv [0, 0, 2, 1] [0, 1]) ''i''
     (exampleApi (\<lambda>_. (0, 0))
        (\<lambda>h _. if h = ''h1'' then (10, 1) else if h = ''h2'' then (20, 1) else (30, 1)))
     ''vDOT'' [Next [''h1'', ''h2''], Next [''h3'']] =
   [Next [Some (PBN 30)], Next [Some (PBN 10), Some (PBN 20)]]"
  by code_simp

text \<open>
  Claim C8 as stated fails for an empty hash list: its combination completes without
  emitting, so no price list of length \<open>0\<close> appears.
\<close>

theorem empty_hash_list_counterexample:
  "getBatchConvertPrice (exampleEnv [0, 1, 0] []) ''i'' (exampleApi (\<lambda>_. (1000, 100)) (\<lambda>_ _. (1000, 100)))
     ''vDOT'' [Next [], Complete] = [Complete]"
  by code_simp

subsection \<open>Sharing of streams\<close>

lemma map_of_filter_other:
  "key \<noteq> key' \<Longrightarrow> map_of (filter (\<lambda>entry. fst entry \<noteq> key') entries) key = map_of entries key"
  by (induction entries) auto

lemma memo_unsubscribed_other:
  "key \<noteq> (i, f, a) \<Longrightarrow>
   map_of (live (memo_unsubscribed i f a t)) key = map_of (live t) key"
  by (simp add: memo_unsubscribed_def map_of_filter_other)

lemma memo_call_live:
  "map_of (live (snd (memo_call instanceId fn args t))) (instanceId, fn, args) =
     Some (fst (memo_call instanceId fn args t))"
  by (simp add: memo_call_def Let_def split: option.splits)

lemma memo_call_hit:
  "map_of (live t) (instanceId, fn, args) = Some stream \<Longrightarrow>
   memo_call instanceId fn args t = (stream, t)"
  by (simp add: memo_call_def)

lemma memo_call_count:
  "count_list (invocations (snd (memo_call instanceId fn args t))) (instanceId, fn, args) \<le>
     Suc (count_list (invocations t) (instanceId, fn, args))"
  by (simp add: memo_call_def Let_def split: option.splits)

lemma memo_call_other:
  assumes "map_of (live t) key = Some stream" and "key \<noteq> (instanceId, fn, args)"
  shows "map_of (live (snd (memo_call instanceId fn args t))) key = Some stream \<and>
         count_list (invocations (snd (memo_call instanceId fn args t))) key =
           count_list (invocations t) key"
  using assms by (simp add: memo_call_def Let_def split: option.splits)

lemma memo_run_keeps:
  assumes "map_of (live t) (instanceId, fn, args) = Some stream"
    and "Unsubscribed instanceId fn args \<notin> set evs"
  shows "map_of (live (memo_run evs t)) (instanceId, fn, args) = Some stream \<and>
         count_list (invocations (memo_run evs t)) (instanceId, fn, args) =
           count_list (invocations t) (instanceId, fn, args)"
  using assms
proof (induction evs arbitrary: t)
  case Nil
  then show ?case by simp
next
  case (Cons ev evs)
  show ?case
  proof (cases ev)
    case (Call i f a)
    show ?thesis
    proof (cases "(i, f, a) = (instanceId, fn, args)")
      case True
      then have "snd (memo_call i f a t) = t"
        using Cons.prems(1) by (simp add: memo_call_hit)
      then show ?thesis
        using Cons Call by simp
    next
      case False
      then have "map_of (live (snd (memo_call i f a t))) (instanceId, fn, args) = Some stream"
        and "count_list (invocations (snd (memo_call i f a t))) (instanceId, fn, args) =
             count_list (invocations t) (instanceId, fn, args)"
        using memo_call_other [OF Cons.prems(1), of i f a] by auto
      then show ?thesis
        using Cons.IH [of "snd (memo_call i f a t)"] Cons.prems(2) Call by simp
    qed
  next
    case (Unsubscribed i f a)
    then have other: "(instanceId, fn, args) \<noteq> (i, f, a)"
      using Cons.prems(2) by auto
    have "map_of (live (memo_unsubscribed i f a t)) (instanceId, fn, args) = Some stream"
      using Cons.prems(1) memo_unsubscribed_other [OF other] by simp
    moreover have "invocations (memo_unsubscribed i f a t) = invocations t"
      by (simp add: memo_unsubscribed_def)
    ultimately show ?thesis
      using Cons.IH [of "memo_unsubscribed i f a t"] Cons.prems(2) Unsubscribed by simp
  qed
qed

text \<open>
  Claim C6.  Between two calls of a wrapped function with equal arguments on the same
  instance, the stream of these arguments not having lost its last subscriber, the
  second call returns the stream of the first, and the body has been invoked at most
  once for these arguments; constructing the wrapped function invokes nothing.
\<close>

theorem memo_shares_the_stream:
  assumes "Unsubscribed instanceId fn args \<notin> set evs"
  shows "fst (memo_call instanceId fn args (memo_run evs (snd (memo_call instanceId fn args t)))) =
           fst (memo_call instanceId fn args t) \<and>
         count_list (invocations (snd (memo_call instanceId fn args
             (memo_run evs (snd (memo_call instanceId fn args t))))))
           (instanceId, fn, args) \<le>
           Suc (count_list (invocations t) (instanceId, fn, args)) \<and>
         invocations (memo_wrap instanceId fn t) = invocations t"
proof -
  let ?first = "memo_call instanceId fn args t"
  let ?t2 = "memo_run evs (snd ?first)"
  have kept: "map_of (live ?t2) (instanceId, fn, args) = Some (fst ?first)"
    and same: "count_list (invocations ?t2) (instanceId, fn, args) =
               count_list (invocations (snd ?first)) (instanceId, fn, args)"
    using memo_run_keeps [OF memo_call_live assms] by auto
  have second: "memo_call instanceId fn args ?t2 = (fst ?first, ?t2)"
    using kept by (rule memo_call_hit)
  show ?thesis
    using second same memo_call_count [of instanceId fn args t] by (simp add: memo_wrap_def)
qed

theorem memo_shares_the_stream_witness:
  "fst (memo_call ''i'' ''getPoolInfo'' (''vDOT'', None :: string option)
      (memo_run [Call ''i'' ''getPoolInfo'' (''vKSM'', None), Unsubscribed ''i'' ''getPoolInfo'' (''vKSM'', None)]
         (snd (memo_call ''i'' ''getPoolInfo'' (''vDOT'', None) \<lparr>live = [], invocations = []\<rparr>)))) =
   fst (memo_call ''i'' ''getPoolInfo'' (''vDOT'', None :: string option) \<lparr>live = [], invocations = []\<rparr>)"
proof -
  have "Unsubscribed ''i'' ''getPoolInfo'' (''vDOT'', None :: string option) \<notin>
        set [Call ''i'' ''getPoolInfo'' (''vKSM'', None), Unsubscribed ''i'' ''getPoolInfo'' (''vKSM'', None)]"
    by simp
  from memo_shares_the_stream [OF this] show ?thesis by (rule conjunct1)
qed

end
